theory Spec2Isabelle
  imports Complex_Main "HOL-Library.Word" "HOL-Library.Signed_Division" "HOL-Library.Log_Nat"
begin

section \<open>The health streamer of the tablet server\<close>

text \<open>
  A shallow embedding of \<^verbatim>\<open>go/vt/vttablet/tabletserver/health_streamer.go\<close>.
  Go pointers are addresses into explicit stores: health responses live in \<open>msgs\<close>,
  channels in \<open>chans\<close>, contexts in \<open>ctxs\<close>; an address is an index, allocation
  appends. The mutex \<open>hs.mu\<close> makes every method one atomic step, so each method is a
  function from the state before to the state after.
\<close>

subsection \<open>Protocol buffer messages\<close>

datatype TabletType =
  UNKNOWN | PRIMARY | REPLICA | RDONLY | SPARE | EXPERIMENTAL | BACKUP | RESTORE | DRAINED

record querypb_Target =
  Keyspace :: string
  Shard :: string
  TabletType :: TabletType
  Cell :: string

record querypb_RealtimeStats =
  HealthError :: string
  ReplicationLagSeconds :: "32 word"
  BinlogPlayersCount :: "32 word"
  FilteredReplicationLagSeconds :: "64 word"
  CpuUsage :: rat
  Qps :: rat
  TableSchemaChanged :: "string list"

record topodatapb_TabletAlias =
  AliasCell :: string
  Uid :: "32 word"

text \<open>
  The nested messages \<open>Target\<close> and \<open>RealtimeStats\<close> are owned by exactly one response
  (\<open>proto.Clone\<close> copies them deeply, and the streamer never stores a nested pointer
  twice), so they are fields by value; the response itself is addressed.
\<close>

record querypb_StreamHealthResponse =
  Target :: querypb_Target
  Serving :: bool
  TabletExternallyReparentedTimestamp :: "64 word"
  RealtimeStats :: querypb_RealtimeStats
  TabletAlias :: topodatapb_TabletAlias

subsection \<open>Time, durations and the conversion of the lag\<close>

text \<open>
  \<open>time.Duration\<close> is an \<open>int64\<close> count of nanoseconds. \<open>time.Time\<close> enters the
  streamer only through \<open>Unix()\<close>, its whole seconds since the epoch.
\<close>

type_synonym Duration = "64 word"

record time_Time =
  Unix :: "64 word"
  Nanosecond :: nat

definition Second :: int where
  "Second = 1000000000"

text \<open>
  \<open>float64\<close> values are the rationals they denote. \<open>f64_round\<close> is IEEE-754
  round-to-nearest, ties to even, to a 53 bit significand; the values that occur here lie
  between \<open>10\<^sup>-\<^sup>9\<close> and \<open>10\<^sup>1\<^sup>0\<close> in magnitude, far from overflow and from the subnormals.
\<close>

definition pow2 :: "int \<Rightarrow> rat" where
  "pow2 e = (if 0 \<le> e then 2 ^ nat e else 1 / 2 ^ nat (- e))"

definition f64_exponent :: "rat \<Rightarrow> int" where
  "f64_exponent q =
     (let (a, b) = quotient_of \<bar>q\<bar>; e = bitlen a - bitlen b
      in if pow2 e \<le> \<bar>q\<bar> then e else e - 1)"

definition round_half_even :: "rat \<Rightarrow> int" where
  "round_half_even x =
     (let f = \<lfloor>x\<rfloor>; r = x - of_int f
      in if r < 1 / 2 then f else if 1 / 2 < r then f + 1 else if even f then f else f + 1)"

definition f64_round :: "rat \<Rightarrow> rat" where
  "f64_round q =
     (if q = 0 then 0
      else let e = f64_exponent q
           in of_int (round_half_even (q * pow2 (52 - e))) * pow2 (e - 52))"

text \<open>
  \<^verbatim>\<open>func (d Duration) Seconds() float64 {
    sec := d / Second; nsec := d % Second
    return float64(sec) + float64(nsec)/1e9 }\<close>
  Go's \<open>/\<close> and \<open>%\<close> truncate towards zero.
\<close>

definition Seconds :: "Duration \<Rightarrow> rat" where
  "Seconds d =
     (let sec = sint d sdiv Second; nsec = sint d smod Second
      in f64_round (f64_round (of_int sec) + f64_round (f64_round (of_int nsec) / 1000000000)))"

text \<open>
  The conversion \<open>uint32(f)\<close> of a float discards the fraction. When the truncated value
  does not fit the result type the Go specification leaves the result to the
  implementation: \<open>oob\<close> is that implementation's choice.
\<close>

definition trunc_toward_zero :: "rat \<Rightarrow> int" where
  "trunc_toward_zero x = (if 0 \<le> x then \<lfloor>x\<rfloor> else \<lceil>x\<rceil>)"

definition uint32_of_float64 :: "(rat \<Rightarrow> 32 word) \<Rightarrow> rat \<Rightarrow> 32 word" where
  "uint32_of_float64 oob x =
     (let t = trunc_toward_zero x
      in if 0 \<le> t \<and> t < 2 ^ 32 then word_of_int t else oob x)"

subsection \<open>Channels, history, timer and pool\<close>

text \<open>
  A buffered channel of response pointers: the queue (head first), the capacity fixed by
  \<open>make\<close>, and whether \<open>close\<close> was called.
\<close>

record chan =
  buf :: "nat list"
  cap :: nat
  chan_closed :: bool

record historyRecord =
  Time :: time_Time
  hr_serving :: bool
  hr_tabletType :: TabletType
  hr_lag :: Duration
  hr_err :: "string option"

text \<open>
  Modelled from the spec: \<open>history.History\<close> (package \<open>go/history\<close>) is not among the
  sources. The spec gives a fixed-capacity FIFO, oldest evicted first; \<open>history.New(5)\<close>
  fixes the capacity.
\<close>

record History =
  records :: "historyRecord list"
  hist_length :: nat

definition history_New :: "nat \<Rightarrow> History" where
  "history_New n = \<lparr>records = [], hist_length = n\<rparr>"

definition history_Add :: "historyRecord \<Rightarrow> History \<Rightarrow> History" where
  "history_Add r h =
     h\<lparr>records := (let rs = records h @ [r] in drop (length rs - hist_length h) rs)\<rparr>"

text \<open>
  Modelled from the spec: \<open>timer.Timer\<close>, \<open>connpool.Pool\<close> and
  \<open>dbconfigs.Connector\<close> are not among the sources. Of the timer the streamer uses
  \<open>Start\<close>, \<open>Stop\<close> and \<open>Trigger\<close> (a periodic scheduler that can be asked for an
  immediate run); of the pool \<open>Open\<close>, \<open>Close\<close> and \<open>Get\<close>. A connector is a struct
  around a pointer to the connection parameters; its zero value, which is what
  \<open>hs.dbConfig\<close> holds until \<open>InitDBConfig\<close> is called, has a nil pointer. The pool's
  \<open>Open\<close> reads the host of the parameters it is given, so it panics on a connector
  without parameters: \<open>None\<close> is the panic.
\<close>

record dbconfigs_Connector =
  connParams :: "string option"

record Timer =
  interval :: Duration
  running :: bool
  triggers :: nat

record Pool =
  pool_size :: nat
  pool_open :: bool

definition timer_Start :: "Timer \<Rightarrow> Timer" where
  "timer_Start t = t\<lparr>running := True\<rparr>"

definition timer_Stop :: "Timer \<Rightarrow> Timer" where
  "timer_Stop t = t\<lparr>running := False\<rparr>"

definition timer_Trigger :: "Timer \<Rightarrow> Timer" where
  "timer_Trigger t = (if running t then t\<lparr>triggers := Suc (triggers t)\<rparr> else t)"

definition pool_Open :: "dbconfigs_Connector \<Rightarrow> Pool \<Rightarrow> Pool option" where
  "pool_Open cp p =
     (case connParams cp of None \<Rightarrow> None | Some params \<Rightarrow> Some (p\<lparr>pool_open := True\<rparr>))"

definition pool_Close :: "Pool \<Rightarrow> Pool" where
  "pool_Close p = p\<lparr>pool_open := False\<rparr>"

subsection \<open>The streamer\<close>

text \<open>
  The fields of \<open>healthStreamer\<close>, then the three stores its pointers lead into.
  \<open>state\<close> is the address of the stored response; \<open>clients\<close> holds the addresses of the
  registered channels (a Go map used as a set: its iteration order is not specified);
  \<open>ctx\<close> is the address of the shutdown context and \<open>cancel\<close> the context that the
  stored cancel function cancels (\<open>None\<close> is \<open>nil\<close>). A context is its \<open>Done\<close> flag.
\<close>

record healthStreamer =
  degradedThreshold :: Duration
  unhealthyThreshold :: Duration
  ctx :: "nat option"
  cancel :: "nat option"
  clients :: "nat list"
  state :: nat
  history :: History
  ticks :: "Timer option"
  dbConfig :: dbconfigs_Connector
  conns :: "Pool option"
  initSuccess :: bool
  signalWhenSchemaChange :: bool
  msgs :: "querypb_StreamHealthResponse list"
  chans :: "chan list"
  ctxs :: "bool list"

text \<open>
  What a call reads from outside the streamer: the replication status function
  \<open>blpFunc\<close>, the query rate \<open>hs.stats.QPSRates.TotalRate()\<close>, the clock, and the
  platform's out-of-range float conversion.
\<close>

record collaborators =
  blpFunc :: "64 word \<times> 32 word"
  TotalRate :: rat
  Now :: time_Time
  float_oob :: "rat \<Rightarrow> 32 word"

definition errUnintialized :: string where
  "errUnintialized = ''tabletserver uninitialized''"

record tabletenv_Config =
  SignalWhenSchemaChange :: bool
  SignalSchemaChangeReloadIntervalSeconds :: Duration
  DegradedThresholdSeconds :: Duration
  UnhealthyThresholdSeconds :: Duration

definition newHealthStreamer :: "tabletenv_Config \<Rightarrow> topodatapb_TabletAlias \<Rightarrow> healthStreamer" where
  "newHealthStreamer config alias =
     \<lparr>degradedThreshold = DegradedThresholdSeconds config,
      unhealthyThreshold = UnhealthyThresholdSeconds config,
      ctx = None,
      cancel = None,
      clients = [],
      state = 0,
      history = history_New 5,
      ticks = (if SignalWhenSchemaChange config
               then Some \<lparr>interval = SignalSchemaChangeReloadIntervalSeconds config,
                          running = False, triggers = 0\<rparr>
               else None),
      dbConfig = \<lparr>connParams = None\<rparr>,
      conns = (if SignalWhenSchemaChange config
               then Some \<lparr>pool_size = 1, pool_open = False\<rparr> else None),
      initSuccess = False,
      signalWhenSchemaChange = SignalWhenSchemaChange config,
      msgs = [\<lparr>Target = \<lparr>Keyspace = [], Shard = [], TabletType = UNKNOWN, Cell = []\<rparr>,
               Serving = False,
               TabletExternallyReparentedTimestamp = 0,
               RealtimeStats = \<lparr>HealthError = errUnintialized, ReplicationLagSeconds = 0,
                                BinlogPlayersCount = 0, FilteredReplicationLagSeconds = 0,
                                CpuUsage = 0, Qps = 0, TableSchemaChanged = []\<rparr>,
               TabletAlias = alias\<rparr>],
      chans = [],
      ctxs = []\<rparr>"

definition InitDBConfig ::
  "querypb_Target \<Rightarrow> dbconfigs_Connector \<Rightarrow> healthStreamer \<Rightarrow> healthStreamer" where
  "InitDBConfig target cp s =
     s\<lparr>msgs := (msgs s)[state s := (msgs s ! state s)\<lparr>Target := target\<rparr>],
       dbConfig := cp\<rparr>"

text \<open>\<open>proto.Clone(hs.state)\<close>: a fresh response holding a deep copy; returns its address.\<close>

definition clone_state :: "healthStreamer \<Rightarrow> nat \<times> healthStreamer" where
  "clone_state s = (length (msgs s), s\<lparr>msgs := msgs s @ [msgs s ! state s]\<rparr>)"

text \<open>
  One iteration of the loop of \<open>broadCastToClients\<close>: the \<open>select\<close> with a \<open>default\<close>
  sends when the buffer has room, and otherwise closes the channel and deletes it from
  \<open>hs.clients\<close>.
\<close>

definition send_or_evict :: "nat \<Rightarrow> nat \<Rightarrow> healthStreamer \<Rightarrow> healthStreamer" where
  "send_or_evict shr ch s =
     (let c = chans s ! ch
      in if length (buf c) < cap c
         then s\<lparr>chans := (chans s)[ch := c\<lparr>buf := buf c @ [shr]\<rparr>]\<rparr>
         else s\<lparr>chans := (chans s)[ch := c\<lparr>chan_closed := True\<rparr>],
                clients := removeAll ch (clients s)\<rparr>)"

definition broadCastToClients :: "nat \<Rightarrow> healthStreamer \<Rightarrow> healthStreamer" where
  "broadCastToClients shr s = fold (send_or_evict shr) (clients s) s"

text \<open>
  \<open>ChangeState\<close>, first half: the assignments to the stored response \<open>hs.state\<close>,
  in the order of the source.
\<close>

definition assign_state ::
  "collaborators \<Rightarrow> TabletType \<Rightarrow> time_Time \<Rightarrow> Duration \<Rightarrow> string option \<Rightarrow> bool \<Rightarrow>
   querypb_StreamHealthResponse \<Rightarrow> querypb_StreamHealthResponse" where
  "assign_state env tabletType terTimestamp lag err serving st =
     (let st1 = st\<lparr>Target := (Target st)\<lparr>TabletType := tabletType\<rparr>\<rparr>;
          st2 = st1\<lparr>TabletExternallyReparentedTimestamp :=
                      (if tabletType = PRIMARY then Unix terTimestamp else 0)\<rparr>;
          rs1 = (RealtimeStats st2)\<lparr>HealthError := (case err of Some e \<Rightarrow> e | None \<Rightarrow> [])\<rparr>;
          rs2 = rs1\<lparr>ReplicationLagSeconds := uint32_of_float64 (float_oob env) (Seconds lag)\<rparr>;
          st3 = st2\<lparr>Serving := serving\<rparr>;
          rs3 = rs2\<lparr>FilteredReplicationLagSeconds := fst (blpFunc env),
                    BinlogPlayersCount := snd (blpFunc env)\<rparr>;
          rs4 = rs3\<lparr>Qps := TotalRate env\<rparr>
      in st3\<lparr>RealtimeStats := rs4\<rparr>)"

text \<open>
  \<open>ChangeState\<close>: the assignments, then the clone, the broadcast and the history record.
  The method has no result: it returns to its caller on every input.
\<close>

definition ChangeState ::
  "collaborators \<Rightarrow> TabletType \<Rightarrow> time_Time \<Rightarrow> Duration \<Rightarrow> string option \<Rightarrow> bool \<Rightarrow>
   healthStreamer \<Rightarrow> healthStreamer" where
  "ChangeState env tabletType terTimestamp lag err serving s =
     (let s1 = s\<lparr>msgs := (msgs s)[state s :=
                  assign_state env tabletType terTimestamp lag err serving (msgs s ! state s)]\<rparr>;
          (shr, s2) = clone_state s1;
          s3 = broadCastToClients shr s2
      in s3\<lparr>history := history_Add
                \<lparr>Time = Now env, hr_serving = Serving (msgs s3 ! shr),
                 hr_tabletType = TabletType (Target (msgs s3 ! shr)), hr_lag = lag,
                 hr_err = err\<rparr> (history s3)\<rparr>)"

definition SetUnhealthyThreshold :: "Duration \<Rightarrow> healthStreamer \<Rightarrow> healthStreamer" where
  "SetUnhealthyThreshold v s =
     (let s1 = s\<lparr>unhealthyThreshold := v\<rparr>;
          (shr, s2) = clone_state s1
      in fold (send_or_evict shr) (clients s2) s2)"

subsection \<open>Lifecycle\<close>

text \<open>
  \<open>context.WithCancel(context.Background())\<close> allocates a context that is not done.
  \<open>Open\<close> assigns \<open>hs.ctx\<close> and \<open>hs.cancel\<close> and then, when there is a pool, opens it with
  \<open>hs.dbConfig\<close> and starts the timer with the closure that runs \<open>reload\<close> and logs its
  error. A call that panics does not return: \<open>None\<close>. \<open>Open\<close> panics in the pool's
  \<open>Open\<close> when \<open>InitDBConfig\<close> has not supplied the connection parameters, and at
  \<open>hs.ticks.Start\<close> when there is a pool but no timer; \<open>Close\<close> panics at
  \<open>hs.conns.Close\<close> when there is a timer but no pool. The constructor sets the timer and
  the pool together.
\<close>

definition Open :: "healthStreamer \<Rightarrow> healthStreamer option" where
  "Open s =
     (if cancel s \<noteq> None then Some s
      else let c = length (ctxs s);
               s1 = s\<lparr>ctxs := ctxs s @ [False], ctx := Some c, cancel := Some c\<rparr>
           in case conns s1 of
                None \<Rightarrow> Some s1
              | Some pool \<Rightarrow>
                  (case pool_Open (dbConfig s1) pool of
                     None \<Rightarrow> None
                   | Some pool1 \<Rightarrow>
                       (case ticks s1 of
                          None \<Rightarrow> None
                        | Some t \<Rightarrow>
                            Some (s1\<lparr>conns := Some pool1, ticks := Some (timer_Start t)\<rparr>))))"

definition Close :: "healthStreamer \<Rightarrow> healthStreamer option" where
  "Close s =
     (case cancel s of
        None \<Rightarrow> Some s
      | Some c \<Rightarrow>
          (case ticks s of
             None \<Rightarrow> Some (s\<lparr>ctxs := (ctxs s)[c := True], cancel := None\<rparr>)
           | Some t \<Rightarrow>
               (case conns s of
                  None \<Rightarrow> None
                | Some pool \<Rightarrow>
                    Some (s\<lparr>ticks := Some (timer_Stop t), conns := Some (pool_Close pool),
                            ctxs := (ctxs s)[c := True], cancel := None\<rparr>))))"

subsection \<open>Registration and the stream session\<close>

datatype Code = Code_UNAVAILABLE | Code_RESOURCE_EXHAUSTED

text \<open>An \<open>error\<close> value: one made by \<open>vterrors.Errorf\<close>, or any other, by its message.\<close>

datatype go_error = vterror Code string | other_error string

text \<open>
  \<open>register\<close> returns \<open>(nil, nil)\<close> when the streamer is not open. Otherwise it makes a
  channel of capacity \<open>*streamHealthBufferSize\<close>, adds it to \<open>hs.clients\<close> and sends a
  clone of the state with a blocking send. No receiver exists yet, so on an unbuffered
  channel (capacity 0) that send never completes, with \<open>hs.mu\<close> held.
\<close>

datatype register_result =
  RegNil
  | RegBlocks
  | Registered nat "nat option" healthStreamer

definition register :: "nat \<Rightarrow> healthStreamer \<Rightarrow> register_result" where
  "register streamHealthBufferSize s =
     (if cancel s = None then RegNil
      else let ch = length (chans s);
               s1 = s\<lparr>chans := chans s @ [\<lparr>buf = [], cap = streamHealthBufferSize,
                                          chan_closed = False\<rparr>],
                      clients := clients s @ [ch]\<rparr>;
               (shr, s2) = clone_state s1
           in if streamHealthBufferSize = 0 then RegBlocks
              else Registered ch (ctx s2)
                     (s2\<lparr>chans := (chans s2)[ch := (chans s2 ! ch)\<lparr>buf := [shr]\<rparr>]\<rparr>))"

definition unregister :: "nat \<Rightarrow> healthStreamer \<Rightarrow> healthStreamer" where
  "unregister ch s = s\<lparr>clients := removeAll ch (clients s)\<rparr>"

text \<open>
  The \<open>select\<close> of \<open>Stream\<close> has three cases. The Go runtime picks one of the cases that
  are ready; the schedule argument of \<open>Stream_loop\<close> lists its picks, one for each
  iteration. A receive is ready when the buffer holds a response or the channel is
  closed; a closed channel still yields what it buffered, then reports \<open>!ok\<close>.
\<close>

datatype select_case = CtxDone | HsCtxDone | Recv

text \<open>What the caller's callback returns: \<open>nil\<close>, \<open>io.EOF\<close>, or another error.\<close>

datatype callback_result = CbNil | CbEOF | CbErr go_error

datatype stream_result =
  Returned "go_error option"
  | Pending
  | NotReady
  | RegisterBlocks
  | StreamPanics

definition errShutdown :: go_error where
  "errShutdown = vterror Code_UNAVAILABLE ''tabletserver is shutdown''"

definition errOverflow :: go_error where
  "errOverflow = vterror Code_RESOURCE_EXHAUSTED
     ''stream health buffer overflowed. client should reconnect for up-to-date status''"

definition select_ready :: "bool \<Rightarrow> nat \<Rightarrow> nat \<Rightarrow> healthStreamer \<Rightarrow> select_case list" where
  "select_ready ctx_done ch hsCtx s =
     (if ctx_done then [CtxDone] else []) @
     (if ctxs s ! hsCtx then [HsCtxDone] else []) @
     (if buf (chans s ! ch) \<noteq> [] \<or> chan_closed (chans s ! ch) then [Recv] else [])"

text \<open>
  \<open>Pending\<close>: the schedule ended with the session still in the loop. \<open>NotReady\<close>: the
  schedule names a case that is not ready, which no execution does. \<open>StreamPanics\<close>:
  \<open>hs.ticks.Trigger()\<close> on a nil timer, with the deferred \<open>unregister\<close> run.
\<close>

fun Stream_loop ::
  "select_case list \<Rightarrow> bool \<Rightarrow> (querypb_StreamHealthResponse \<Rightarrow> callback_result) \<Rightarrow>
   nat \<Rightarrow> nat \<Rightarrow> healthStreamer \<Rightarrow> stream_result \<times> healthStreamer" where
  "Stream_loop [] ctx_done callback ch hsCtx s = (Pending, s)"
| "Stream_loop (CtxDone # sched) ctx_done callback ch hsCtx s =
     (if ctx_done then (Returned None, s) else (NotReady, s))"
| "Stream_loop (HsCtxDone # sched) ctx_done callback ch hsCtx s =
     (if ctxs s ! hsCtx then (Returned (Some errShutdown), s) else (NotReady, s))"
| "Stream_loop (Recv # sched) ctx_done callback ch hsCtx s =
     (case buf (chans s ! ch) of
        [] \<Rightarrow> if chan_closed (chans s ! ch) then (Returned (Some errOverflow), s)
              else (NotReady, s)
      | shr # rest \<Rightarrow>
          let s1 = s\<lparr>chans := (chans s)[ch := (chans s ! ch)\<lparr>buf := rest\<rparr>]\<rparr>
          in (case callback (msgs s ! shr) of
                CbNil \<Rightarrow> Stream_loop sched ctx_done callback ch hsCtx s1
              | CbEOF \<Rightarrow> (Returned None, s1)
              | CbErr e \<Rightarrow> (Returned (Some e), s1)))"

definition Stream ::
  "nat \<Rightarrow> select_case list \<Rightarrow> bool \<Rightarrow> (querypb_StreamHealthResponse \<Rightarrow> callback_result) \<Rightarrow>
   healthStreamer \<Rightarrow> stream_result \<times> healthStreamer" where
  "Stream streamHealthBufferSize sched ctx_done callback s =
     (case register streamHealthBufferSize s of
        RegNil \<Rightarrow> (Returned (Some errShutdown), s)
      | RegBlocks \<Rightarrow> (RegisterBlocks, s)
      | Registered ch hsCtx s1 \<Rightarrow>
          (case hsCtx of
             None \<Rightarrow> (Returned (Some errShutdown), s1)
           | Some c \<Rightarrow>
               (case (if signalWhenSchemaChange s1
                      then map_option (\<lambda>t. s1\<lparr>ticks := Some (timer_Trigger t)\<rparr>) (ticks s1)
                      else Some s1) of
                  None \<Rightarrow> (StreamPanics, unregister ch s1)
                | Some s2 \<Rightarrow>
                    let (r, s3) = Stream_loop sched ctx_done callback ch c s2
                    in (case r of
                          Returned e \<Rightarrow> (r, unregister ch s3)
                        | _ \<Rightarrow> (r, s3)))))"

subsection \<open>Diagnostics\<close>

text \<open>
  Modelled from the spec: the three class constants \<open>healthyClass\<close>, \<open>unhappyClass\<close> and
  \<open>unhealthyClass\<close> are declared outside the sources; the spec calls them healthy,
  degraded and unhealthy.
\<close>

datatype healthClass = healthyClass | unhappyClass | unhealthyClass

record kv =
  Key :: string
  Class :: healthClass
  Value :: string

text \<open>\<open>fmt.Sprintf("%d", n)\<close> for an unsigned \<open>n\<close>.\<close>

function decimal :: "nat \<Rightarrow> string" where
  "decimal n = (if n < 10 then [char_of (48 + n)]
                else decimal (n div 10) @ [char_of (48 + n mod 10)])"
  by pat_completeness auto
termination
  by (relation "measure id") auto

declare decimal.simps [simp del]

definition AppendDetails :: "kv list \<Rightarrow> healthStreamer \<Rightarrow> kv list" where
  "AppendDetails details s =
     (let st = msgs s ! state s
      in if TabletType (Target st) = PRIMARY then details
         else let sbm = (ucast (ReplicationLagSeconds (RealtimeStats st)) :: 64 word)
                          * 1000000000;
                  class = (if sint (unhealthyThreshold s) < sint sbm then unhealthyClass
                           else if sint (degradedThreshold s) < sint sbm then unhappyClass
                           else healthyClass);
                  details1 = details @
                    [\<lparr>Key = ''Replication Lag'', Class = class,
                      Value = decimal (unat (ReplicationLagSeconds (RealtimeStats st))) @ ''s''\<rparr>]
              in if HealthError (RealtimeStats st) \<noteq> []
                 then details1 @
                    [\<lparr>Key = ''Replication Error'', Class = unhappyClass,
                      Value = HealthError (RealtimeStats st)\<rparr>]
                 else details1)"

subsection \<open>Schema reload\<close>

text \<open>
  The statements of package \<open>mysql\<close> and the literal printer of package \<open>sqlparser\<close> are
  declared outside the sources; they are parameters. \<open>StrLiteral t\<close> stands for
  \<open>sqlparser.String(sqlparser.NewStrLiteral(t))\<close>.
\<close>

record mysql_statements =
  DetectSchemaChange :: string
  ClearSchemaCopy :: string
  InsertIntoSchemaCopy :: string
  VTDatabaseInit :: "string list"
  StrLiteral :: "string \<Rightarrow> string"

text \<open>
  The backing store during one cycle, by its answers: the error of \<open>hs.conns.Get\<close>, the
  error of \<open>conn.Exec\<close> for a statement, and for \<open>conn.Stream\<close> the batches handed to
  the callback (of every row its first column, \<open>row[0].ToString()\<close>) and the final error.
  Within one cycle an answer depends on the statement only; from one cycle to the next
  the store may change, each call of \<open>reload\<close> taking its own.
\<close>

record backend =
  pool_Get :: "go_error option"
  conn_Exec :: "string \<Rightarrow> go_error option"
  conn_Stream :: "string \<Rightarrow> string list list \<times> go_error option"

datatype db_call = CallGet | CallRecycle | CallExec string | CallStream string

fun strings_Join :: "string list \<Rightarrow> string \<Rightarrow> string" where
  "strings_Join [] sep = []"
| "strings_Join [x] sep = x"
| "strings_Join (x # y # ys) sep = x @ sep @ strings_Join (y # ys) sep"

text \<open>
  \<open>InitSchemaLocked\<close> runs the statements in order and stops at the first error. Next to
  its two results it lists the calls it made.
\<close>

fun InitSchemaLocked_loop ::
  "backend \<Rightarrow> string list \<Rightarrow> (bool \<times> go_error option) \<times> db_call list" where
  "InitSchemaLocked_loop db [] = ((True, None), [])"
| "InitSchemaLocked_loop db (query # queries) =
     (case conn_Exec db query of
        Some e \<Rightarrow> ((False, Some e), [CallExec query])
      | None \<Rightarrow> (let (r, calls) = InitSchemaLocked_loop db queries
                 in (r, CallExec query # calls)))"

definition InitSchemaLocked ::
  "mysql_statements \<Rightarrow> backend \<Rightarrow> (bool \<times> go_error option) \<times> db_call list" where
  "InitSchemaLocked my db = InitSchemaLocked_loop db (VTDatabaseInit my)"

text \<open>
  \<open>reload\<close>, last part: after the commit the changed tables are put into the stored
  response, the response is cloned and broadcast, and the field is cleared again.
\<close>

definition publish_tables :: "string list \<Rightarrow> healthStreamer \<Rightarrow> healthStreamer" where
  "publish_tables tables s =
     (let st = msgs s ! state s;
          s2 = s\<lparr>msgs := (msgs s)[state s :=
                  st\<lparr>RealtimeStats := (RealtimeStats st)\<lparr>TableSchemaChanged := tables\<rparr>\<rparr>]\<rparr>;
          (shr, s3) = clone_state s2;
          s4 = broadCastToClients shr s3;
          st4 = msgs s4 ! state s4
      in s4\<lparr>msgs := (msgs s4)[state s4 :=
                  st4\<lparr>RealtimeStats := (RealtimeStats st4)\<lparr>TableSchemaChanged := []\<rparr>\<rparr>]\<rparr>)"

text \<open>
  \<open>reload\<close>, the block guarded by \<open>!hs.initSuccess\<close>: the new value of the flag, the
  error, and the calls made.
\<close>

definition init_step ::
  "mysql_statements \<Rightarrow> backend \<Rightarrow> healthStreamer \<Rightarrow> (bool \<times> go_error option) \<times> db_call list" where
  "init_step my db s =
     (if \<not> initSuccess s then InitSchemaLocked my db else ((initSuccess s, None), []))"

text \<open>\<open>reload\<close>, the tables collected by the callback and the two statements built from them.\<close>

definition detected_tables :: "mysql_statements \<Rightarrow> backend \<Rightarrow> string list" where
  "detected_tables my db = concat (fst (conn_Stream db (DetectSchemaChange my)))"

definition tableNamePredicate :: "mysql_statements \<Rightarrow> string list \<Rightarrow> string" where
  "tableNamePredicate my tables =
     ''table_name IN ('' @ strings_Join (map (StrLiteral my) tables) '', '' @ '')''"

definition del_statement :: "mysql_statements \<Rightarrow> string list \<Rightarrow> string" where
  "del_statement my tables = ClearSchemaCopy my @ '' AND '' @ tableNamePredicate my tables"

definition upd_statement :: "mysql_statements \<Rightarrow> string list \<Rightarrow> string" where
  "upd_statement my tables = InsertIntoSchemaCopy my @ '' AND '' @ tableNamePredicate my tables"

text \<open>
  \<open>reload\<close> returns its error, the streamer after the call and the calls made to the
  backing store, the deferred \<open>rollback\<close> and \<open>Recycle\<close> included, in the order made.
  On a primary without a pool \<open>hs.conns.Get\<close> is a call on a nil pointer: the panic is
  \<open>None\<close>.
\<close>

definition reload ::
  "mysql_statements \<Rightarrow> backend \<Rightarrow> healthStreamer \<Rightarrow>
   (go_error option \<times> healthStreamer \<times> db_call list) option" where
  "reload my db s =
     (if TabletType (Target (msgs s ! state s)) \<noteq> PRIMARY then Some (None, s, [])
      else case conns s of
        None \<Rightarrow> None
      | Some pool \<Rightarrow> Some
     (case pool_Get db of
        Some e \<Rightarrow> (Some e, s, [CallGet])
      | None \<Rightarrow>
     (let s1 = s\<lparr>initSuccess := fst (fst (init_step my db s))\<rparr>;
          c1 = CallGet # snd (init_step my db s)
      in case snd (fst (init_step my db s)) of
        Some e \<Rightarrow> (Some e, s1, c1 @ [CallRecycle])
      | None \<Rightarrow>
     (let tables = detected_tables my db;
          c2 = c1 @ [CallStream (DetectSchemaChange my)]
      in case snd (conn_Stream db (DetectSchemaChange my)) of
        Some e \<Rightarrow> (Some e, s1, c2 @ [CallRecycle])
      | None \<Rightarrow>
     if length tables = 0 then (None, s1, c2 @ [CallRecycle])
     else
     (let del = del_statement my tables;
          upd = upd_statement my tables;
          c3 = c2 @ [CallExec ''begin'']
      in case conn_Exec db ''begin'' of
        Some e \<Rightarrow> (Some e, s1, c3 @ [CallRecycle])
      | None \<Rightarrow>
     (case conn_Exec db del of
        Some e \<Rightarrow> (Some e, s1, c3 @ [CallExec del, CallExec ''rollback'', CallRecycle])
      | None \<Rightarrow>
     (case conn_Exec db upd of
        Some e \<Rightarrow>
          (Some e, s1, c3 @ [CallExec del, CallExec upd, CallExec ''rollback'', CallRecycle])
      | None \<Rightarrow>
     (case conn_Exec db ''commit'' of
        Some e \<Rightarrow>
          (Some e, s1, c3 @ [CallExec del, CallExec upd, CallExec ''commit'',
                             CallExec ''rollback'', CallRecycle])
      | None \<Rightarrow>
          (None, publish_tables tables s1,
           c3 @ [CallExec del, CallExec upd, CallExec ''commit'',
                 CallExec ''rollback'', CallRecycle])))))))))"

text \<open>The text of an error, as \<open>%v\<close> prints it.\<close>

fun err_Error :: "go_error \<Rightarrow> string" where
  "err_Error (vterror c m) = m"
| "err_Error (other_error m) = m"

text \<open>
  The closure that \<open>Open\<close> hands to the timer: it runs \<open>reload\<close> and logs an error with
  \<open>log.Errorf\<close>, which returns. The closure returns the streamer and the lines logged.
\<close>

definition reload_tick ::
  "mysql_statements \<Rightarrow> backend \<Rightarrow> healthStreamer \<Rightarrow> (healthStreamer \<times> string list) option" where
  "reload_tick my db s =
     (case reload my db s of
        None \<Rightarrow> None
      | Some (Some e, s1, calls) \<Rightarrow>
          Some (s1, [''periodic schema reload failed in health stream: '' @ err_Error e])
      | Some (None, s1, calls) \<Rightarrow> Some (s1, []))"

subsection \<open>Sequences of calls\<close>

text \<open>
  The calls that reach the streamer, one after another under the mutex. \<open>OpReceive ch\<close>
  is the receive of the session that owns \<open>ch\<close>: it takes the head of the buffer. After
  a call that never returns (a registration on an unbuffered channel, which keeps the
  mutex) or that panics, nothing follows: \<open>None\<close>.
\<close>

datatype op =
  OpChangeState collaborators TabletType time_Time Duration "string option" bool
  | OpSetUnhealthyThreshold Duration
  | OpReload mysql_statements backend
  | OpRegister nat
  | OpUnregister nat
  | OpReceive nat
  | OpInitDBConfig querypb_Target dbconfigs_Connector
  | OpOpen
  | OpClose

definition receive :: "nat \<Rightarrow> healthStreamer \<Rightarrow> healthStreamer" where
  "receive ch s = s\<lparr>chans := (chans s)[ch := (chans s ! ch)\<lparr>buf := tl (buf (chans s ! ch))\<rparr>]\<rparr>"

fun apply_op :: "op \<Rightarrow> healthStreamer \<Rightarrow> healthStreamer option" where
  "apply_op (OpChangeState env tabletType terTimestamp lag err serving) s =
     Some (ChangeState env tabletType terTimestamp lag err serving s)"
| "apply_op (OpSetUnhealthyThreshold v) s = Some (SetUnhealthyThreshold v s)"
| "apply_op (OpReload my db) s = map_option (\<lambda>r. fst (snd r)) (reload my db s)"
| "apply_op (OpRegister n) s =
     (case register n s of
        RegNil \<Rightarrow> Some s
      | RegBlocks \<Rightarrow> None
      | Registered ch hsCtx s1 \<Rightarrow> Some s1)"
| "apply_op (OpUnregister ch) s = Some (unregister ch s)"
| "apply_op (OpReceive ch) s = Some (receive ch s)"
| "apply_op (OpInitDBConfig target cp) s = Some (InitDBConfig target cp s)"
| "apply_op OpOpen s = Open s"
| "apply_op OpClose s = Close s"

fun run :: "op list \<Rightarrow> healthStreamer \<Rightarrow> healthStreamer option" where
  "run [] s = Some s"
| "run (x # xs) s = (case apply_op x s of None \<Rightarrow> None | Some s1 \<Rightarrow> run xs s1)"

text \<open>
  For one subscriber \<open>ch\<close> and a sequence of \<open>ChangeState\<close> calls and receives of that
  subscriber: the responses it received, the responses that were broadcast (each the
  clone made by one \<open>ChangeState\<close>, with the stored state right after that call), and
  whether every broadcast found room in its buffer.
\<close>

fun is_ChangeState :: "op \<Rightarrow> bool" where
  "is_ChangeState (OpChangeState env tabletType terTimestamp lag err serving) = True"
| "is_ChangeState x = False"

fun session_op :: "nat \<Rightarrow> op \<Rightarrow> bool" where
  "session_op ch (OpChangeState env tabletType terTimestamp lag err serving) = True"
| "session_op ch (OpReceive c) = (c = ch)"
| "session_op ch x = False"

fun received :: "nat \<Rightarrow> op list \<Rightarrow> healthStreamer \<Rightarrow> nat list" where
  "received ch [] s = []"
| "received ch (x # xs) s =
     (case apply_op x s of
        None \<Rightarrow> []
      | Some s1 \<Rightarrow>
          (case x of OpReceive c \<Rightarrow> if c = ch then take 1 (buf (chans s ! ch)) else []
                   | _ \<Rightarrow> []) @ received ch xs s1)"

fun broadcasts :: "op list \<Rightarrow> healthStreamer \<Rightarrow> (nat \<times> querypb_StreamHealthResponse) list" where
  "broadcasts [] s = []"
| "broadcasts (x # xs) s =
     (case apply_op x s of
        None \<Rightarrow> []
      | Some s1 \<Rightarrow>
          (if is_ChangeState x then [(length (msgs s), msgs s1 ! state s1)] else [])
          @ broadcasts xs s1)"

fun never_full :: "nat \<Rightarrow> op list \<Rightarrow> healthStreamer \<Rightarrow> bool" where
  "never_full ch [] s = True"
| "never_full ch (x # xs) s =
     (case apply_op x s of
        None \<Rightarrow> False
      | Some s1 \<Rightarrow>
          (if is_ChangeState x then length (buf (chans s ! ch)) < cap (chans s ! ch) else True)
          \<and> never_full ch xs s1)"

text \<open>
  \<open>is_broadcast\<close> holds of the calls that broadcast exactly once, whatever the state:
  \<open>ChangeState\<close> and \<open>SetUnhealthyThreshold\<close>.
\<close>

text \<open>
  Two relations between the streamer before and after some calls. \<open>keeps_msgs\<close>: the
  stored state is the same object and exists, no response was freed, and every response
  other than the stored state is as it was. \<open>keeps_queue ch\<close>: channel \<open>ch\<close> still
  exists and its queue starts with what it held before. \<open>other_op ch\<close> holds of every
  call but a receive from \<open>ch\<close>. \<open>quiet\<close>: no \<open>reload\<close> of the sequence published
  a schema change (one that does allocates a response).
\<close>

definition keeps_msgs :: "healthStreamer \<Rightarrow> healthStreamer \<Rightarrow> bool" where
  "keeps_msgs s s' \<longleftrightarrow>
     state s' = state s \<and> state s' < length (msgs s') \<and> length (msgs s) \<le> length (msgs s') \<and>
     list_all (\<lambda>a. a = state s \<or> msgs s' ! a = msgs s ! a) [0..<length (msgs s)]"

definition keeps_queue :: "nat \<Rightarrow> healthStreamer \<Rightarrow> healthStreamer \<Rightarrow> bool" where
  "keeps_queue ch s s' \<longleftrightarrow>
     ch < length (chans s') \<and>
     take (length (buf (chans s ! ch))) (buf (chans s' ! ch)) = buf (chans s ! ch)"

fun other_op :: "nat \<Rightarrow> op \<Rightarrow> bool" where
  "other_op ch (OpReceive c) = (c \<noteq> ch)"
| "other_op ch x = True"

fun is_broadcast :: "op \<Rightarrow> bool" where
  "is_broadcast (OpChangeState env tabletType terTimestamp lag err serving) = True"
| "is_broadcast (OpSetUnhealthyThreshold v) = True"
| "is_broadcast x = False"

fun is_reload :: "op \<Rightarrow> bool" where
  "is_reload (OpReload my db) = True"
| "is_reload x = False"

fun quiet :: "op list \<Rightarrow> healthStreamer \<Rightarrow> bool" where
  "quiet [] s = True"
| "quiet (x # xs) s =
     (case apply_op x s of
        None \<Rightarrow> True
      | Some s1 \<Rightarrow> (if is_reload x then msgs s1 = msgs s else True) \<and> quiet xs s1)"

text \<open>
  What one broadcast of \<open>shr\<close> does to one registered channel, and whether the channel
  has room for it.
\<close>

definition has_room :: "chan \<Rightarrow> bool" where
  "has_room c \<longleftrightarrow> length (buf c) < cap c"

definition send_or_close :: "nat \<Rightarrow> chan \<Rightarrow> chan" where
  "send_or_close shr c = (if has_room c then c\<lparr>buf := buf c @ [shr]\<rparr> else c\<lparr>chan_closed := True\<rparr>)"

subsection \<open>Invariants\<close>

text \<open>
  What the constructor establishes and every method keeps: the stored state exists; the
  registry holds each channel once, and every registered channel exists and is open;
  every buffered pointer leads to a response that is not the stored state; the cancel
  function, when set, belongs to the current context, which is not done.
\<close>

definition wf_clients :: "healthStreamer \<Rightarrow> bool" where
  "wf_clients s \<longleftrightarrow>
     distinct (clients s) \<and>
     list_all (\<lambda>ch. ch < length (chans s) \<and> \<not> chan_closed (chans s ! ch)) (clients s)"

definition wf_bufs :: "healthStreamer \<Rightarrow> bool" where
  "wf_bufs s \<longleftrightarrow>
     list_all (\<lambda>c. list_all (\<lambda>a. a < length (msgs s) \<and> a \<noteq> state s) (buf c)) (chans s)"

definition wf_ctx :: "healthStreamer \<Rightarrow> bool" where
  "wf_ctx s \<longleftrightarrow>
     (case cancel s of
        Some c \<Rightarrow> ctx s = Some c \<and> c < length (ctxs s) \<and> \<not> ctxs s ! c
      | None \<Rightarrow> (case ctx s of None \<Rightarrow> True | Some c \<Rightarrow> c < length (ctxs s) \<and> ctxs s ! c))"

text \<open>
  What holds of the shutdown context \<open>c\<close> that a session got from \<open>register\<close>: it
  exists, and it is done or it is the context that the stored cancel function cancels.
\<close>

definition holds_ctx :: "nat \<Rightarrow> healthStreamer \<Rightarrow> bool" where
  "holds_ctx c s \<longleftrightarrow> c < length (ctxs s) \<and> (ctxs s ! c \<or> cancel s = Some c)"

definition wf :: "healthStreamer \<Rightarrow> bool" where
  "wf s \<longleftrightarrow> state s < length (msgs s) \<and> wf_clients s \<and> wf_bufs s \<and> wf_ctx s"

subsection \<open>Concrete streamers\<close>

text \<open>
  A configuration without schema signalling and one with it, degraded at 30 s and
  unhealthy at 60 s, and the streamers built from them.
\<close>

definition config0 :: tabletenv_Config where
  "config0 = \<lparr>SignalWhenSchemaChange = False, SignalSchemaChangeReloadIntervalSeconds = 0,
              DegradedThresholdSeconds = 30000000000,
              UnhealthyThresholdSeconds = 60000000000\<rparr>"

definition config1 :: tabletenv_Config where
  "config1 = \<lparr>SignalWhenSchemaChange = True,
              SignalSchemaChangeReloadIntervalSeconds = 1800000000000,
              DegradedThresholdSeconds = 30000000000,
              UnhealthyThresholdSeconds = 60000000000\<rparr>"

definition alias0 :: topodatapb_TabletAlias where
  "alias0 = \<lparr>AliasCell = ''zone1'', Uid = 100\<rparr>"

definition opened :: "healthStreamer \<Rightarrow> healthStreamer" where
  "opened s = (case Open s of Some s1 \<Rightarrow> s1 | None \<Rightarrow> s)"

definition hs0 :: healthStreamer where
  "hs0 = newHealthStreamer config0 alias0"

definition hs1 :: healthStreamer where
  "hs1 = newHealthStreamer config1 alias0"

text \<open>The same after \<open>InitDBConfig\<close>, with the target of a primary and a connector.\<close>

definition target0 :: querypb_Target where
  "target0 = \<lparr>Keyspace = ''ks'', Shard = ''0'', TabletType = PRIMARY, Cell = ''zone1''\<rparr>"

definition connector0 :: dbconfigs_Connector where
  "connector0 = \<lparr>connParams = Some ''localhost''\<rparr>"

definition hs1_configured :: healthStreamer where
  "hs1_configured = InitDBConfig target0 connector0 hs1"

definition hs1_open :: healthStreamer where
  "hs1_open = opened hs1_configured"

definition hs1_closed :: healthStreamer where
  "hs1_closed = (case Close hs1_open of Some s \<Rightarrow> s | None \<Rightarrow> hs1_open)"

definition env0 :: collaborators where
  "env0 = \<lparr>blpFunc = (0, 0), TotalRate = 0, Now = \<lparr>Unix = 1600000000, Nanosecond = 0\<rparr>,
           float_oob = (\<lambda>x. 0)\<rparr>"

definition time0 :: time_Time where
  "time0 = \<lparr>Unix = 1600000000, Nanosecond = 0\<rparr>"

text \<open>
  The open streamer \<open>hs0\<close> with one subscriber of capacity 3, the same after the
  subscriber has received the response queued by \<open>register\<close> and after a \<open>Close\<close> that
  follows, the streamer with two such subscribers, and the latter after one
  \<open>ChangeState\<close>.
\<close>

definition subscribe :: "nat \<Rightarrow> healthStreamer \<Rightarrow> healthStreamer" where
  "subscribe n s = (case register n s of Registered ch hsCtx s1 \<Rightarrow> s1 | _ \<Rightarrow> s)"

definition hs_one :: healthStreamer where
  "hs_one = subscribe 3 (opened hs0)"

definition hs_drained :: healthStreamer where
  "hs_drained = receive 0 hs_one"

definition hs_drained_closed :: healthStreamer where
  "hs_drained_closed = (case Close hs_drained of Some s \<Rightarrow> s | None \<Rightarrow> hs_drained)"

definition hs_two :: healthStreamer where
  "hs_two = subscribe 3 (subscribe 3 (opened hs0))"

definition hs_two_changed :: healthStreamer where
  "hs_two_changed = ChangeState env0 REPLICA time0 45000000000 None True hs_two"

definition ops_example :: "op list" where
  "ops_example =
     [OpChangeState env0 REPLICA time0 45000000000 None True,
      OpReceive 0,
      OpChangeState env0 PRIMARY time0 0 (Some ''down'') False]"

definition ops_later :: "op list" where
  "ops_later =
     [OpChangeState env0 REPLICA time0 45000000000 None True,
      OpSetUnhealthyThreshold 90000000000,
      OpRegister 3,
      OpChangeState env0 PRIMARY time0 0 (Some ''down'') False,
      OpClose]"

definition change45 :: op where
  "change45 = OpChangeState env0 REPLICA time0 45000000000 None True"

definition change46 :: op where
  "change46 = OpChangeState env0 REPLICA time0 46000000000 None True"

definition change47 :: op where
  "change47 = OpChangeState env0 REPLICA time0 47000000000 None True"

definition three_changes :: "op list" where
  "three_changes = [change45, change46, change47]"

text \<open>
  \<open>hs_one\<close> after two changes, the second with a lag of 46 s, and after that second call
  is repeated.
\<close>

definition hs_one_changed :: healthStreamer where
  "hs_one_changed = ChangeState env0 REPLICA time0 46000000000 None True
     (ChangeState env0 REPLICA time0 45000000000 None True hs_one)"

definition hs_one_changed_twice :: healthStreamer where
  "hs_one_changed_twice = ChangeState env0 REPLICA time0 46000000000 None True hs_one_changed"

text \<open>
  \<open>hs_one\<close> after three broadcasts without a receive, and then closed.
\<close>

definition hs_evicted :: healthStreamer where
  "hs_evicted = (case run three_changes hs_one of Some s \<Rightarrow> s | None \<Rightarrow> hs_one)"

definition hs_evicted_closed :: healthStreamer where
  "hs_evicted_closed = (case Close hs_evicted of Some s \<Rightarrow> s | None \<Rightarrow> hs_evicted)"

text \<open>
  The statements and two backing stores: one that answers every call without error and
  reports the tables \<open>t1\<close> and \<open>t2\<close>, and one that does the same but fails the \<open>commit\<close>.
  \<open>hs1_sub\<close> is the open, configured primary with one subscriber of capacity 3;
  \<open>hs1_published\<close> is that streamer after one cycle of \<open>reload\<close> on the first store.
\<close>

definition my0 :: mysql_statements where
  "my0 = \<lparr>DetectSchemaChange = ''select table_name from detect'',
          ClearSchemaCopy = ''delete from _vt.schemacopy where table_schema = database()'',
          InsertIntoSchemaCopy = ''insert into _vt.schemacopy select * from columns where table_schema = database()'',
          VTDatabaseInit = [''create database if not exists _vt'',
                            ''create table if not exists _vt.schemacopy (c int)''],
          StrLiteral = (\<lambda>t. [CHR 39] @ t @ [CHR 39])\<rparr>"

definition db0 :: backend where
  "db0 = \<lparr>pool_Get = None, conn_Exec = (\<lambda>q. None),
          conn_Stream = (\<lambda>q. ([[''t1''], [''t2'']], None))\<rparr>"

definition db_commit_fails :: backend where
  "db_commit_fails = \<lparr>pool_Get = None,
     conn_Exec = (\<lambda>q. if q = ''commit'' then Some (other_error ''lost connection'') else None),
     conn_Stream = (\<lambda>q. ([[''t1''], [''t2'']], None))\<rparr>"

definition hs1_sub :: healthStreamer where
  "hs1_sub = subscribe 3 hs1_open"

definition change_primary :: op where
  "change_primary = OpChangeState env0 PRIMARY time0 0 None True"

definition hs1_published :: healthStreamer where
  "hs1_published = (case reload my0 db0 hs1_sub of Some (e, s, calls) \<Rightarrow> s | None \<Rightarrow> hs1_sub)"

section \<open>Properties\<close>

subsection \<open>What a broadcast leaves alone\<close>

lemma send_or_evict_frame:
  "send_or_evict shr ch s =
     s\<lparr>chans := chans (send_or_evict shr ch s), clients := clients (send_or_evict shr ch s)\<rparr>"
  by (simp add: send_or_evict_def Let_def)

lemma fold_send_frame:
  "fold (send_or_evict shr) xs s =
     s\<lparr>chans := chans (fold (send_or_evict shr) xs s),
       clients := clients (fold (send_or_evict shr) xs s)\<rparr>"
proof (induction xs arbitrary: s)
  case Nil
  show ?case by simp
next
  case (Cons x xs)
  let ?t = "send_or_evict shr x s"
  have "fold (send_or_evict shr) (x # xs) s = fold (send_or_evict shr) xs ?t"
    by simp
  also have "\<dots> = ?t\<lparr>chans := chans (fold (send_or_evict shr) xs ?t),
                       clients := clients (fold (send_or_evict shr) xs ?t)\<rparr>"
    by (rule Cons.IH)
  also have "\<dots> = s\<lparr>chans := chans (fold (send_or_evict shr) xs ?t),
                      clients := clients (fold (send_or_evict shr) xs ?t)\<rparr>"
    by (subst send_or_evict_frame) simp
  finally show ?case by simp
qed

lemma broadCast_frame:
  "broadCastToClients shr s =
     s\<lparr>chans := chans (broadCastToClients shr s), clients := clients (broadCastToClients shr s)\<rparr>"
  unfolding broadCastToClients_def by (rule fold_send_frame)

lemma broadCast_msgs [simp]: "msgs (broadCastToClients shr s) = msgs s"
  by (subst broadCast_frame) simp

lemma broadCast_state [simp]: "state (broadCastToClients shr s) = state s"
  by (subst broadCast_frame) simp

lemma broadCast_ctxs [simp]: "ctxs (broadCastToClients shr s) = ctxs s"
  by (subst broadCast_frame) simp

lemma broadCast_ctx [simp]: "ctx (broadCastToClients shr s) = ctx s"
  by (subst broadCast_frame) simp

lemma broadCast_cancel [simp]: "cancel (broadCastToClients shr s) = cancel s"
  by (subst broadCast_frame) simp

lemma broadCast_unhealthyThreshold [simp]:
  "unhealthyThreshold (broadCastToClients shr s) = unhealthyThreshold s"
  by (subst broadCast_frame) simp

lemma broadCast_degradedThreshold [simp]:
  "degradedThreshold (broadCastToClients shr s) = degradedThreshold s"
  by (subst broadCast_frame) simp

subsection \<open>The lag conversion\<close>

lemma pow2_powi: "pow2 e = 2 powi e"
  by (simp add: pow2_def power_int_def power_one_over)

lemma pow2_pos: "0 < pow2 e"
  by (simp add: pow2_powi)

lemma pow2_add: "pow2 (a + b) = pow2 a * pow2 b"
  by (simp add: pow2_powi power_int_add)

lemma round_half_even_int [simp]: "round_half_even (of_int m) = m"
  by (simp add: round_half_even_def)

lemma f64_exponent_int_le:
  assumes "0 < n"
  shows "f64_exponent (of_int n) \<le> bitlen n - 1"
proof -
  have q: "quotient_of \<bar>rat_of_int n\<bar> = (n, 1)"
    using assms by (simp flip: of_int_abs)
  have b1: "bitlen 1 = 1"
    by (simp add: bitlen_alt_def)
  show ?thesis
    by (simp add: f64_exponent_def q b1 Let_def)
qed

text \<open>An integer below \<open>2\<^sup>5\<^sup>3\<close> is a \<open>float64\<close>: the conversion is exact.\<close>

lemma f64_round_int:
  assumes "0 \<le> n" "n < 2 ^ 53"
  shows "f64_round (of_int n) = of_int n"
proof (cases "n = 0")
  case True
  then show ?thesis by (simp add: f64_round_def)
next
  case False
  with assms have pos: "0 < n" by simp
  define e where "e = f64_exponent (rat_of_int n)"
  have "bitlen n \<le> 53"
    using assms by (simp add: bitlen_le_iff_power)
  with f64_exponent_int_le[OF pos] have le: "e \<le> 52"
    by (simp add: e_def)
  define k where "k = nat (52 - e)"
  have p: "pow2 (52 - e) = of_int (2 ^ k)"
    using le by (simp add: pow2_def k_def)
  have "rat_of_int n * pow2 (52 - e) = of_int (n * 2 ^ k)"
    by (simp add: p)
  then have r: "round_half_even (rat_of_int n * pow2 (52 - e)) = n * 2 ^ k"
    by (simp only: round_half_even_int)
  have "pow2 (52 - e) * pow2 (e - 52) = 1"
    by (simp flip: pow2_add add: pow2_def)
  then have "of_int (n * 2 ^ k) * pow2 (e - 52) = rat_of_int n"
    using p by (simp add: mult.assoc)
  then show ?thesis
    using False by (simp add: f64_round_def Let_def r flip: e_def)
qed

lemma sint_word_of_int_64:
  "- (2 ^ 63) \<le> k \<Longrightarrow> k < 2 ^ 63 \<Longrightarrow> sint (word_of_int k :: 64 word) = k"
  by (simp add: sint_sbintrunc' signed_take_bit_int_eq_self)

lemma Seconds_whole:
  assumes "0 \<le> n" "n < 2 ^ 32"
  shows "Seconds (word_of_int (n * 1000000000)) = of_int n"
proof -
  have "n * 1000000000 < 2 ^ 63" "- (2 ^ 63) \<le> n * 1000000000"
    using assms by simp_all
  then have s: "sint (word_of_int (n * 1000000000) :: 64 word) = n * 1000000000"
    by (intro sint_word_of_int_64)
  have d: "(n * 1000000000) sdiv Second = n" "(n * 1000000000) smod Second = 0"
    using assms by (simp_all add: Second_def signed_divide_int_def signed_modulo_int_def sgn_if)
  have n53: "n < 2 ^ 53"
    using assms by simp
  have z: "f64_round 0 = 0"
    by (simp add: f64_round_def)
  show ?thesis
    unfolding Seconds_def s d Let_def
    by (simp add: f64_round_int[OF assms(1) n53] z)
qed

lemma uint32_whole:
  assumes "0 \<le> n" "n < 2 ^ 32"
  shows "uint32_of_float64 oob (Seconds (word_of_int (n * 1000000000))) = word_of_int n"
  unfolding uint32_of_float64_def Seconds_whole[OF assms]
  using assms by (simp add: trunc_toward_zero_def Let_def)

lemma sint_lag_ns:
  "sint ((ucast (w :: 32 word) :: 64 word) * 1000000000) = uint w * 1000000000"
proof -
  have "uint w < 2 ^ 32"
    using uint_bounded[of w] by simp
  then have b1: "uint w * 1000000000 < 2 ^ 63"
    by simp
  have "- (2 ^ 63) \<le> (0 :: int)" "0 \<le> uint w * 1000000000"
    by simp_all
  then have b2: "- (2 ^ 63) \<le> uint w * 1000000000"
    by (rule order_trans)
  have "(ucast w :: 64 word) * 1000000000 = word_of_int (uint w * 1000000000)"
    by (simp add: word_of_int_uint)
  then have "sint ((ucast w :: 64 word) * 1000000000)
      = sint (word_of_int (uint w * 1000000000) :: 64 word)"
    by (rule arg_cong)
  also have "\<dots> = uint w * 1000000000"
    using b2 b1 by (rule sint_word_of_int_64)
  finally show ?thesis .
qed

subsection \<open>Open and Close\<close>

text \<open>
  Claim C10. \<open>Open\<close> on a streamer that is open (its cancel function is set) returns at
  once and changes nothing: the context, the pool and the timer stay as they are.
  \<open>Close\<close> on a streamer that is closed, or was never opened, changes nothing. An
  \<open>Open\<close> on a closed streamer installs a fresh context that is not done and, when there
  is a pool, opens it and starts the timer; it panics instead when there is a pool and
  \<open>InitDBConfig\<close> has not supplied the connection parameters, or there is no timer. A
  \<open>Close\<close> on an open streamer stops the timer and closes the pool when there is a timer,
  cancels the context and clears the cancel function; it panics instead when there is a
  timer and no pool. Hence a second \<open>Open\<close> after an \<open>Open\<close> that returned, and a second
  \<open>Close\<close> after a \<open>Close\<close> that returned, change nothing.
\<close>

theorem Open_Close_idempotent:
  "(cancel s \<noteq> None \<longrightarrow> Open s = Some s) \<and>
   (cancel s = None \<longrightarrow> Close s = Some s) \<and>
   (cancel s = None \<and> conns s = None \<longrightarrow>
      Open s = Some (s\<lparr>ctxs := ctxs s @ [False], ctx := Some (length (ctxs s)),
                       cancel := Some (length (ctxs s))\<rparr>)) \<and>
   (\<forall>pool t params.
      cancel s = None \<and> conns s = Some pool \<and> ticks s = Some t \<and>
      connParams (dbConfig s) = Some params \<longrightarrow>
      Open s = Some (s\<lparr>ctxs := ctxs s @ [False], ctx := Some (length (ctxs s)),
                       cancel := Some (length (ctxs s)),
                       conns := Some (pool\<lparr>pool_open := True\<rparr>),
                       ticks := Some (t\<lparr>running := True\<rparr>)\<rparr>)) \<and>
   (cancel s = None \<and> conns s \<noteq> None \<and> (connParams (dbConfig s) = None \<or> ticks s = None) \<longrightarrow>
      Open s = None) \<and>
   (\<forall>c. cancel s = Some c \<and> ticks s = None \<longrightarrow>
      Close s = Some (s\<lparr>ctxs := (ctxs s)[c := True], cancel := None\<rparr>)) \<and>
   (\<forall>c t pool.
      cancel s = Some c \<and> ticks s = Some t \<and> conns s = Some pool \<longrightarrow>
      Close s = Some (s\<lparr>ticks := Some (t\<lparr>running := False\<rparr>),
                        conns := Some (pool\<lparr>pool_open := False\<rparr>),
                        ctxs := (ctxs s)[c := True], cancel := None\<rparr>)) \<and>
   (\<forall>c. cancel s = Some c \<and> ticks s \<noteq> None \<and> conns s = None \<longrightarrow> Close s = None) \<and>
   (\<forall>s1. Open s = Some s1 \<longrightarrow> cancel s1 \<noteq> None \<and> Open s1 = Some s1) \<and>
   (\<forall>s1. Close s = Some s1 \<longrightarrow> cancel s1 = None \<and> Close s1 = Some s1)"
proof -
  have 1: "cancel s \<noteq> None \<longrightarrow> Open s = Some s"
    by (simp add: Open_def)
  have 2: "cancel s = None \<longrightarrow> Close s = Some s"
    by (simp add: Close_def)
  have 3: "cancel s = None \<and> conns s = None \<longrightarrow>
      Open s = Some (s\<lparr>ctxs := ctxs s @ [False], ctx := Some (length (ctxs s)),
                       cancel := Some (length (ctxs s))\<rparr>)"
    by (simp add: Open_def Let_def)
  have 4: "\<forall>pool t params.
      cancel s = None \<and> conns s = Some pool \<and> ticks s = Some t \<and>
      connParams (dbConfig s) = Some params \<longrightarrow>
      Open s = Some (s\<lparr>ctxs := ctxs s @ [False], ctx := Some (length (ctxs s)),
                       cancel := Some (length (ctxs s)),
                       conns := Some (pool\<lparr>pool_open := True\<rparr>),
                       ticks := Some (t\<lparr>running := True\<rparr>)\<rparr>)"
    by (simp add: Open_def Let_def pool_Open_def timer_Start_def)
  have 5: "cancel s = None \<and> conns s \<noteq> None \<and>
      (connParams (dbConfig s) = None \<or> ticks s = None) \<longrightarrow> Open s = None"
    by (auto simp: Open_def Let_def pool_Open_def split: option.splits)
  have 6: "\<forall>c. cancel s = Some c \<and> ticks s = None \<longrightarrow>
      Close s = Some (s\<lparr>ctxs := (ctxs s)[c := True], cancel := None\<rparr>)"
    by (simp add: Close_def)
  have 7: "\<forall>c t pool.
      cancel s = Some c \<and> ticks s = Some t \<and> conns s = Some pool \<longrightarrow>
      Close s = Some (s\<lparr>ticks := Some (t\<lparr>running := False\<rparr>),
                        conns := Some (pool\<lparr>pool_open := False\<rparr>),
                        ctxs := (ctxs s)[c := True], cancel := None\<rparr>)"
    by (simp add: Close_def pool_Close_def timer_Stop_def)
  have 8: "\<forall>c. cancel s = Some c \<and> ticks s \<noteq> None \<and> conns s = None \<longrightarrow> Close s = None"
    by (auto simp: Close_def split: option.splits)
  have 9: "\<forall>s1. Open s = Some s1 \<longrightarrow> cancel s1 \<noteq> None \<and> Open s1 = Some s1"
    by (auto simp: Open_def Let_def split: option.splits if_splits)
  have 10: "\<forall>s1. Close s = Some s1 \<longrightarrow> cancel s1 = None \<and> Close s1 = Some s1"
    by (auto simp: Close_def split: option.splits)
  from 1 2 3 4 5 6 7 8 9 10 show ?thesis
    by blast
qed

theorem Open_Close_idempotent_witness:
  "cancel hs1_configured = None \<and> Close hs1_configured = Some hs1_configured \<and>
   Open hs1_configured = Some hs1_open \<and> cancel hs1_open = Some 0 \<and>
   conns hs1_open = Some \<lparr>pool_size = 1, pool_open = True\<rparr> \<and>
   Open hs1_open = Some hs1_open \<and>
   Close hs1_open = Some hs1_closed \<and> cancel hs1_closed = None \<and> ctxs hs1_closed = [True] \<and>
   Close hs1_closed = Some hs1_closed \<and>
   Open hs1 = None"
proof -
  have a: "cancel hs1_configured = None" "Open hs1_configured = Some hs1_open"
    "Close hs1_open = Some hs1_closed"
    "conns hs1_open = Some \<lparr>pool_size = 1, pool_open = True\<rparr>" "ctxs hs1_closed = [True]"
    "cancel hs1_open = Some 0"
    by code_simp+
  have b: "cancel hs1 = None \<and> conns hs1 \<noteq> None \<and>
      (connParams (dbConfig hs1) = None \<or> ticks hs1 = None)"
    by code_simp
  show ?thesis
    using Open_Close_idempotent[of hs1_configured] Open_Close_idempotent[of hs1_open]
      Open_Close_idempotent[of hs1] a b
    by simp
qed

lemma pow2_mono: "a \<le> b \<Longrightarrow> pow2 a \<le> pow2 b"
  by (simp add: pow2_powi power_int_increasing)

lemma pow2_less_imp: "pow2 a < pow2 b \<Longrightarrow> a < b"
  using pow2_mono[of b a] by (cases "a < b") auto

lemma pow2_nat: "0 \<le> e \<Longrightarrow> pow2 e = 2 ^ nat e"
  by (simp add: pow2_def)

lemma pow2_cancel: "pow2 (52 - e) * pow2 (e - 52) = 1"
  by (simp flip: pow2_add add: pow2_def)

lemma f64_exponent_le:
  assumes "q \<noteq> 0"
  shows "pow2 (f64_exponent q) \<le> \<bar>q\<bar>"
proof -
  obtain a b where ab: "quotient_of \<bar>q\<bar> = (a, b)"
    by (cases "quotient_of \<bar>q\<bar>")
  have bpos: "0 < b"
    using ab by (rule quotient_of_denom_pos)
  have q: "\<bar>q\<bar> = of_int a / of_int b"
    using ab by (rule quotient_of_div)
  have "0 < \<bar>q\<bar>" using assms by simp
  with q bpos have apos: "0 < a"
    by (simp add: zero_less_divide_iff)
  show ?thesis
  proof (cases "pow2 (bitlen a - bitlen b) \<le> \<bar>q\<bar>")
    case True
    then show ?thesis by (simp add: f64_exponent_def ab Let_def)
  next
    case False
    then have e: "f64_exponent q = bitlen a - bitlen b - 1"
      by (simp add: f64_exponent_def ab Let_def)
    have la: "1 \<le> bitlen a" and lb: "1 \<le> bitlen b"
      using apos bpos by (simp_all add: bitlen_alt_def)
    have "2 ^ nat (bitlen a - 1) \<le> a"
      using bitlen_bounds[OF apos] by simp
    then have n: "(2::rat) ^ nat (bitlen a - 1) \<le> of_int a"
      by (metis of_int_le_iff of_int_numeral of_int_power)
    have "b < 2 ^ nat (bitlen b)"
      using bitlen_bounds[OF bpos] by simp
    then have "b \<le> 2 ^ nat (bitlen b)" by simp
    then have d: "of_int b \<le> (2::rat) ^ nat (bitlen b)"
      by (metis of_int_le_iff of_int_numeral of_int_power)
    have "bitlen a - bitlen b - 1 = (bitlen a - 1) + (- bitlen b)"
      by simp
    then have "pow2 (bitlen a - bitlen b - 1) = pow2 (bitlen a - 1) * pow2 (- bitlen b)"
      by (simp only: pow2_add)
    also have "\<dots> = 2 ^ nat (bitlen a - 1) / 2 ^ nat (bitlen b)"
      using la lb by (simp add: pow2_def)
    also have "\<dots> \<le> of_int a / of_int b"
      using n d bpos apos by (intro frac_le) simp_all
    finally show ?thesis by (simp add: e q)
  qed
qed

lemma round_half_even_error: "\<bar>of_int (round_half_even z) - z\<bar> \<le> 1 / 2"
proof -
  have "of_int \<lfloor>z\<rfloor> \<le> z" "z < of_int \<lfloor>z\<rfloor> + 1"
    by linarith+
  then show ?thesis
    by (auto simp: round_half_even_def Let_def abs_le_iff)
qed

lemma round_half_even_ge_floor: "\<lfloor>z\<rfloor> \<le> round_half_even z"
  by (simp add: round_half_even_def Let_def)

lemma f64_round_error:
  assumes "q \<noteq> 0"
  shows "\<bar>f64_round q - q\<bar> \<le> pow2 (f64_exponent q - 53)"
proof -
  define e where "e = f64_exponent q"
  define m where "m = round_half_even (q * pow2 (52 - e))"
  have r: "f64_round q = of_int m * pow2 (e - 52)"
    using assms by (simp add: f64_round_def Let_def e_def m_def)
  have "\<bar>of_int m - q * pow2 (52 - e)\<bar> \<le> 1 / 2"
    unfolding m_def by (rule round_half_even_error)
  then have "\<bar>of_int m - q * pow2 (52 - e)\<bar> * pow2 (e - 52) \<le> 1 / 2 * pow2 (e - 52)"
    using pow2_pos[of "e - 52"] by (intro mult_right_mono) simp_all
  moreover have "\<bar>of_int m - q * pow2 (52 - e)\<bar> * pow2 (e - 52)
      = \<bar>of_int m * pow2 (e - 52) - q * (pow2 (52 - e) * pow2 (e - 52))\<bar>"
  proof -
    have "\<bar>of_int m - q * pow2 (52 - e)\<bar> * pow2 (e - 52)
        = \<bar>(of_int m - q * pow2 (52 - e)) * pow2 (e - 52)\<bar>"
      using pow2_pos[of "e - 52"] by (simp add: abs_mult)
    also have "(of_int m - q * pow2 (52 - e)) * pow2 (e - 52)
        = of_int m * pow2 (e - 52) - q * (pow2 (52 - e) * pow2 (e - 52))"
      by (simp only: left_diff_distrib mult.assoc)
    finally show ?thesis .
  qed
  moreover have "1 / 2 * pow2 (e - 52) = pow2 (e - 53)"
  proof -
    have "pow2 (e - 53) = pow2 (e - 52) * pow2 (- 1)"
      by (simp flip: pow2_add)
    then show ?thesis by (simp add: pow2_def)
  qed
  ultimately show ?thesis
    by (simp add: r pow2_cancel flip: e_def)
qed

lemma f64_round_ge_int:
  assumes "of_int m \<le> q" "q \<noteq> 0" "f64_exponent q \<le> 52"
  shows "of_int m \<le> f64_round q"
proof -
  define e where "e = f64_exponent q"
  define k where "k = nat (52 - e)"
  have p: "pow2 (52 - e) = of_int (2 ^ k)"
    using assms(3) by (simp add: pow2_def k_def e_def)
  have "of_int (m * 2 ^ k) \<le> q * pow2 (52 - e)"
    using assms(1) by (simp add: p)
  then have "m * 2 ^ k \<le> \<lfloor>q * pow2 (52 - e)\<rfloor>"
    by (simp only: le_floor_iff)
  also have "\<dots> \<le> round_half_even (q * pow2 (52 - e))"
    by (rule round_half_even_ge_floor)
  finally have "rat_of_int (m * 2 ^ k) \<le> of_int (round_half_even (q * pow2 (52 - e)))"
    by (simp only: of_int_le_iff)
  then have "rat_of_int (m * 2 ^ k) * pow2 (e - 52)
      \<le> of_int (round_half_even (q * pow2 (52 - e))) * pow2 (e - 52)"
    using pow2_pos[of "e - 52"] by (intro mult_right_mono) simp_all
  moreover have "rat_of_int (m * 2 ^ k) * pow2 (e - 52) = of_int m"
  proof -
    have "rat_of_int (m * 2 ^ k) * pow2 (e - 52) = of_int m * (pow2 (52 - e) * pow2 (e - 52))"
      by (simp only: p of_int_mult mult.assoc)
    then show ?thesis by (simp only: pow2_cancel mult_1_right)
  qed
  moreover have "f64_round q = of_int (round_half_even (q * pow2 (52 - e))) * pow2 (e - 52)"
    using assms(2) by (simp add: f64_round_def Let_def flip: e_def)
  ultimately show ?thesis
    by (simp only:)
qed

text \<open>
  Below \<open>2\<^sup>2\<^sup>4\<close> seconds the two roundings of \<open>Seconds\<close> never reach the next whole
  second, so the conversion to \<open>uint32\<close> yields the whole seconds of the lag.
\<close>

lemma Seconds_floor:
  assumes k: "0 \<le> sint lag" "sint lag < 2 ^ 24 * Second"
  shows "trunc_toward_zero (Seconds lag) = sint lag div Second"
proof -
  define sec where "sec = sint lag div Second"
  define nsec where "nsec = sint lag mod Second"
  have sd: "sint lag sdiv Second = sec" "sint lag smod Second = nsec"
    using k(1) by (simp_all add: sec_def nsec_def Second_def signed_divide_int_def
        signed_modulo_int_def sgn_if)
  have dm: "sint lag = sec * 1000000000 + nsec"
    by (simp add: sec_def nsec_def Second_def)
  have nsec': "0 \<le> nsec" "nsec < 1000000000"
    by (simp_all add: nsec_def Second_def)
  have k': "sint lag < 16777216000000000"
    using k(2) by (simp add: Second_def)
  have "0 \<le> sec" "sec < 16777216"
    using k(1) k' dm nsec' by linarith+
  then have sec: "0 \<le> sec" "sec < 2 ^ 24"
    by simp_all
  have nsec: "0 \<le> nsec" "nsec \<le> 999999999"
    using nsec' by simp_all
  have r1: "f64_round (of_int sec) = of_int sec"
    using sec by (intro f64_round_int) simp_all
  have r2: "f64_round (of_int nsec) = of_int nsec"
    using nsec by (intro f64_round_int) simp_all
  define x1 :: rat where "x1 = of_int nsec / 1000000000"
  have x1: "0 \<le> x1" "x1 \<le> 999999999 / 1000000000"
    using nsec by (simp_all add: x1_def)
  define f1 where "f1 = f64_round x1"
  have f1: "0 \<le> f1 \<and> f1 \<le> 999999999 / 1000000000 + pow2 (- 54)"
  proof (cases "x1 = 0")
    case True
    then show ?thesis by (simp add: f1_def f64_round_def pow2_def)
  next
    case False
    have "pow2 (f64_exponent x1) \<le> \<bar>x1\<bar>"
      using False by (rule f64_exponent_le)
    also have "\<dots> < pow2 0"
      using x1 by (simp add: pow2_def)
    finally have e: "f64_exponent x1 < 0"
      by (rule pow2_less_imp)
    then have "pow2 (f64_exponent x1 - 53) \<le> pow2 (- 54)"
      by (intro pow2_mono) simp
    with f64_round_error[OF False] have "f1 \<le> x1 + pow2 (- 54)"
      by (simp add: f1_def abs_le_iff)
    moreover have "of_int 0 \<le> f1"
      unfolding f1_def using x1 False e by (intro f64_round_ge_int) simp_all
    ultimately show ?thesis using x1 by simp
  qed
  define y where "y = of_int sec + f1"
  have y: "of_int sec \<le> y" "y \<le> of_int sec + 999999999 / 1000000000 + pow2 (- 54)"
    using f1 by (simp_all add: y_def)
  have small: "999999999 / 1000000000 + pow2 (- 54) + pow2 (- 30) < (1 :: rat)"
    by (simp add: pow2_def)
  define f2 where "f2 = f64_round y"
  have f2: "of_int sec \<le> f2 \<and> f2 < of_int sec + 1"
  proof (cases "y = 0")
    case True
    with y(1) sec(1) have "sec = 0" by simp
    with True show ?thesis by (simp add: f2_def f64_round_def)
  next
    case False
    have ynn: "0 \<le> y" using y(1) sec(1) by simp
    have "sec + 1 \<le> 16777216"
      using sec(2) by simp
    then have "rat_of_int (sec + 1) \<le> rat_of_int 16777216"
      by (simp only: of_int_le_iff)
    then have le: "rat_of_int sec + 1 \<le> 16777216"
      by simp
    have "y < of_int sec + 1"
      using y(2) small pow2_pos[of "- 30"] by linarith
    with le have "y < 16777216"
      by linarith
    then have ylt: "y < pow2 24"
      by (simp add: pow2_def)
    have "pow2 (f64_exponent y) \<le> \<bar>y\<bar>"
      using False by (rule f64_exponent_le)
    also have "\<dots> < pow2 24"
      using ylt ynn by simp
    finally have e: "f64_exponent y < 24"
      by (rule pow2_less_imp)
    then have "pow2 (f64_exponent y - 53) \<le> pow2 (- 30)"
      by (intro pow2_mono) simp
    with f64_round_error[OF False] have "f2 \<le> y + pow2 (- 30)"
      by (simp add: f2_def abs_le_iff)
    then have "f2 < of_int sec + 1"
      using y(2) small by linarith
    moreover have "of_int sec \<le> f2"
      unfolding f2_def using y(1) False e by (intro f64_round_ge_int) simp_all
    ultimately show ?thesis by simp
  qed
  have "Seconds lag = f2"
    by (simp only: Seconds_def sd Let_def r1 r2 f2_def y_def f1_def x1_def)
  moreover have "\<lfloor>f2\<rfloor> = sec"
    using f2 by (intro floor_unique) simp_all
  moreover have "0 \<le> f2"
    using f2 sec(1) by (meson of_int_0_le_iff order_trans)
  ultimately show ?thesis
    by (simp add: trunc_toward_zero_def sec_def)
qed

subsection \<open>ChangeState\<close>

lemma uint32_floor:
  assumes "0 \<le> sint lag" "sint lag < 2 ^ 24 * Second"
  shows "uint32_of_float64 oob (Seconds lag) = word_of_int (sint lag div Second)"
proof -
  have t: "trunc_toward_zero (Seconds lag) = sint lag div Second"
    using assms by (rule Seconds_floor)
  have "sint lag = (sint lag div Second) * 1000000000 + sint lag mod Second"
    by (simp add: Second_def)
  moreover have "0 \<le> sint lag mod Second" "sint lag mod Second < 1000000000"
    by (simp_all add: Second_def)
  moreover have "sint lag < 16777216000000000"
    using assms(2) by (simp add: Second_def)
  ultimately have "0 \<le> sint lag div Second" "sint lag div Second < 4294967296"
    using assms(1) by linarith+
  then show ?thesis
    by (simp add: uint32_of_float64_def t Let_def)
qed

lemma uint32_whole_mult:
  "0 \<le> n \<Longrightarrow> n < 4294967296 \<Longrightarrow>
   uint32_of_float64 oob (Seconds (word_of_int n * 1000000000)) = word_of_int n"
  using uint32_whole[of n oob] by simp

lemma ChangeState_state [simp]:
  "state (ChangeState env tabletType terTimestamp lag err serving s) = state s"
  by (simp add: ChangeState_def Let_def clone_state_def split: prod.splits)

lemma ChangeState_msgs:
  "msgs (ChangeState env tabletType terTimestamp lag err serving s) =
     (let ms = (msgs s)[state s :=
                  assign_state env tabletType terTimestamp lag err serving (msgs s ! state s)]
      in ms @ [ms ! state s])"
  by (simp add: ChangeState_def Let_def clone_state_def split: prod.splits)

lemma ChangeState_stored:
  "state s < length (msgs s) \<Longrightarrow>
   msgs (ChangeState env tabletType terTimestamp lag err serving s) ! state s =
     assign_state env tabletType terTimestamp lag err serving (msgs s ! state s)"
  by (simp add: ChangeState_msgs Let_def nth_append)

lemma assign_state_fields [simp]:
  "TabletType (Target (assign_state env tabletType terTimestamp lag err serving st)) = tabletType"
  "TabletExternallyReparentedTimestamp (assign_state env tabletType terTimestamp lag err serving st)
     = (if tabletType = PRIMARY then Unix terTimestamp else 0)"
  "HealthError (RealtimeStats (assign_state env tabletType terTimestamp lag err serving st))
     = (case err of Some e \<Rightarrow> e | None \<Rightarrow> [])"
  "ReplicationLagSeconds (RealtimeStats (assign_state env tabletType terTimestamp lag err serving st))
     = uint32_of_float64 (float_oob env) (Seconds lag)"
  "Serving (assign_state env tabletType terTimestamp lag err serving st) = serving"
  "TableSchemaChanged (RealtimeStats (assign_state env tabletType terTimestamp lag err serving st))
     = TableSchemaChanged (RealtimeStats st)"
  by (simp_all add: assign_state_def Let_def)

text \<open>
  Claim C5, as amended. After \<open>ChangeState(role, externallyReparentedAt, lag, err,
  serving)\<close> the stored response has the given role; the Unix seconds of the given
  timestamp if the role is PRIMARY and zero otherwise; the message of \<open>err\<close>, or the empty
  string when \<open>err\<close> is nil; the given serving flag; and as replication lag the value of
  \<open>uint32(lag.Seconds())\<close>. That value is the lag in whole seconds, the fraction
  discarded, for every lag from 0 up to \<open>2\<^sup>2\<^sup>4\<close> seconds, and for every lag of a whole number
  of seconds below \<open>2\<^sup>3\<^sup>2\<close>. The method has no error result: it is a total function of
  its arguments and the state.
\<close>

theorem ChangeState_stored_fields:
  assumes "state s < length (msgs s)"
  shows "state (ChangeState env tabletType terTimestamp lag err serving s) = state s \<and>
    (let st = msgs (ChangeState env tabletType terTimestamp lag err serving s) ! state s
     in TabletType (Target st) = tabletType \<and>
        TabletExternallyReparentedTimestamp st =
          (if tabletType = PRIMARY then Unix terTimestamp else 0) \<and>
        HealthError (RealtimeStats st) = (case err of Some e \<Rightarrow> e | None \<Rightarrow> []) \<and>
        Serving st = serving \<and>
        ReplicationLagSeconds (RealtimeStats st) =
          uint32_of_float64 (float_oob env) (Seconds lag) \<and>
        (0 \<le> sint lag \<and> sint lag < 2 ^ 24 * Second \<longrightarrow>
           ReplicationLagSeconds (RealtimeStats st) = word_of_int (sint lag div Second)) \<and>
        (\<forall>n. 0 \<le> n \<and> n < 2 ^ 32 \<and> lag = word_of_int (n * 1000000000) \<longrightarrow>
           ReplicationLagSeconds (RealtimeStats st) = word_of_int n))"
  using assms by (simp add: ChangeState_stored Let_def uint32_floor uint32_whole_mult)

theorem ChangeState_stored_fields_witness:
  "state hs0 < length (msgs hs0) \<and>
   TabletType (Target (msgs (ChangeState env0 REPLICA time0 45000000000 None True hs0) ! state hs0))
     = REPLICA \<and>
   TabletExternallyReparentedTimestamp
     (msgs (ChangeState env0 REPLICA time0 45000000000 None True hs0) ! state hs0) = 0 \<and>
   ReplicationLagSeconds (RealtimeStats
     (msgs (ChangeState env0 REPLICA time0 45000000000 None True hs0) ! state hs0)) = 45"
proof -
  have w: "state hs0 < length (msgs hs0)"
    by (simp add: hs0_def newHealthStreamer_def)
  have l: "(0::int) \<le> 45 \<and> (45::int) < 2 ^ 32 \<and>
      (45000000000 :: 64 word) = word_of_int (45 * 1000000000)"
    by simp
  have "ReplicationLagSeconds (RealtimeStats
     (msgs (ChangeState env0 REPLICA time0 45000000000 None True hs0) ! state hs0)) = word_of_int 45"
    using ChangeState_stored_fields[OF w, of env0 REPLICA time0 45000000000 None True] l
    unfolding Let_def by blast
  then show ?thesis
    using ChangeState_stored_fields[OF w, of env0 REPLICA time0 45000000000 None True] w
    by (simp add: Let_def)
qed

text \<open>
  Read as written, claim C5 takes the stored lag to be the given lag in seconds, for every
  call. A lag of \<open>-1\<close> s cannot be stored in the unsigned field; a lag of 1.5 s is stored
  as 1; and a lag of 16777216.999999999 s is stored as 16777217, one more than its whole
  seconds, because \<open>Seconds\<close> rounds to the nearest \<open>float64\<close>.
\<close>

theorem ChangeState_lag_counterexample:
  "uint (ReplicationLagSeconds (RealtimeStats
      (msgs (ChangeState env0 REPLICA time0 (- 1000000000) None True hs0) ! state hs0)))
     \<noteq> sint (- 1000000000 :: 64 word) sdiv Second \<and>
   uint (ReplicationLagSeconds (RealtimeStats
      (msgs (ChangeState env0 REPLICA time0 1500000000 None True hs0) ! state hs0))) * Second
     \<noteq> sint (1500000000 :: 64 word) \<and>
   uint (ReplicationLagSeconds (RealtimeStats
      (msgs (ChangeState env0 REPLICA time0 16777216999999999 None True hs0) ! state hs0)))
     \<noteq> sint (16777216999999999 :: 64 word) sdiv Second"
proof -
  have w: "state hs0 < length (msgs hs0)"
    by (simp add: hs0_def newHealthStreamer_def)
  have a: "sint (- 1000000000 :: 64 word) sdiv Second = - 1"
    by (simp add: Second_def signed_divide_int_def)
  have "0 \<le> uint (ReplicationLagSeconds (RealtimeStats
      (msgs (ChangeState env0 REPLICA time0 (- 1000000000) None True hs0) ! state hs0)))"
    by simp
  with a have 1: "uint (ReplicationLagSeconds (RealtimeStats
      (msgs (ChangeState env0 REPLICA time0 (- 1000000000) None True hs0) ! state hs0)))
     \<noteq> sint (- 1000000000 :: 64 word) sdiv Second"
    by linarith
  have h2: "Seconds 1500000000 = 3 / 2"
    by code_simp
  have f2: "\<lfloor>3 / 2 :: rat\<rfloor> = 1"
    by (rule floor_unique) simp_all
  have u2: "uint32_of_float64 (float_oob env0) (Seconds 1500000000) = 1"
    unfolding uint32_of_float64_def h2 trunc_toward_zero_def Let_def by (simp add: f2)
  have 2: "uint (ReplicationLagSeconds (RealtimeStats
      (msgs (ChangeState env0 REPLICA time0 1500000000 None True hs0) ! state hs0))) * Second
     \<noteq> sint (1500000000 :: 64 word)"
    by (simp add: ChangeState_stored[OF w] u2 Second_def)
  have h3: "Seconds 16777216999999999 = 16777217"
    by code_simp
  have u3: "uint32_of_float64 (float_oob env0) (Seconds 16777216999999999) = 16777217"
    unfolding uint32_of_float64_def h3 trunc_toward_zero_def Let_def by simp
  have b: "sint (16777216999999999 :: 64 word) sdiv Second = 16777216"
    by (simp add: Second_def signed_divide_int_def)
  have 3: "uint (ReplicationLagSeconds (RealtimeStats
      (msgs (ChangeState env0 REPLICA time0 16777216999999999 None True hs0) ! state hs0)))
     \<noteq> sint (16777216999999999 :: 64 word) sdiv Second"
    by (simp only: ChangeState_stored[OF w] assign_state_fields u3 b) simp
  from 1 2 3 show ?thesis by blast
qed

subsection \<open>AppendDetails\<close>

text \<open>
  Claim C9. For the role PRIMARY \<open>AppendDetails\<close> returns the details it was given.
  For every other role it appends the lag row, whose class compares the stored lag (in
  nanoseconds) with the two thresholds: unhealthy above the unhealthy threshold, else
  degraded above the degraded threshold, else healthy; and after it the error row,
  exactly when the stored health error is not empty. With thresholds of 30 s and 60 s, a
  REPLICA with a stored lag of 45 s gets a lag row of class degraded; so does the streamer
  right after \<open>ChangeState\<close> with a lag of 45 s.
\<close>

theorem AppendDetails_rows:
  "(TabletType (Target (msgs s ! state s)) = PRIMARY \<longrightarrow> AppendDetails details s = details) \<and>
   (TabletType (Target (msgs s ! state s)) \<noteq> PRIMARY \<longrightarrow>
      AppendDetails details s =
        details @
        [\<lparr>Key = ''Replication Lag'',
          Class = (let lag = uint (ReplicationLagSeconds (RealtimeStats (msgs s ! state s)))
                           * 1000000000
                   in if sint (unhealthyThreshold s) < lag then unhealthyClass
                      else if sint (degradedThreshold s) < lag then unhappyClass
                      else healthyClass),
          Value = decimal (unat (ReplicationLagSeconds (RealtimeStats (msgs s ! state s)))) @ ''s''\<rparr>] @
        (if HealthError (RealtimeStats (msgs s ! state s)) \<noteq> []
         then [\<lparr>Key = ''Replication Error'', Class = unhappyClass,
                 Value = HealthError (RealtimeStats (msgs s ! state s))\<rparr>]
         else [])) \<and>
   (TabletType (Target (msgs s ! state s)) = REPLICA \<and>
    degradedThreshold s = 30000000000 \<and> unhealthyThreshold s = 60000000000 \<and>
    ReplicationLagSeconds (RealtimeStats (msgs s ! state s)) = 45 \<longrightarrow>
      Class (AppendDetails details s ! length details) = unhappyClass) \<and>
   (state s < length (msgs s) \<and>
    degradedThreshold s = 30000000000 \<and> unhealthyThreshold s = 60000000000 \<longrightarrow>
      Class (AppendDetails details
               (ChangeState env REPLICA terTimestamp 45000000000 err serving s) ! length details)
        = unhappyClass)"
proof -
  have 1: "TabletType (Target (msgs s ! state s)) = PRIMARY \<longrightarrow> AppendDetails details s = details"
    by (simp add: AppendDetails_def Let_def)
  have 2: "TabletType (Target (msgs s ! state s)) \<noteq> PRIMARY \<longrightarrow>
      AppendDetails details s =
        details @
        [\<lparr>Key = ''Replication Lag'',
          Class = (let lag = uint (ReplicationLagSeconds (RealtimeStats (msgs s ! state s)))
                           * 1000000000
                   in if sint (unhealthyThreshold s) < lag then unhealthyClass
                      else if sint (degradedThreshold s) < lag then unhappyClass
                      else healthyClass),
          Value = decimal (unat (ReplicationLagSeconds (RealtimeStats (msgs s ! state s)))) @ ''s''\<rparr>] @
        (if HealthError (RealtimeStats (msgs s ! state s)) \<noteq> []
         then [\<lparr>Key = ''Replication Error'', Class = unhappyClass,
                 Value = HealthError (RealtimeStats (msgs s ! state s))\<rparr>]
         else [])"
    by (simp add: AppendDetails_def Let_def sint_lag_ns)
  have 3: "Class (AppendDetails details t ! length details) = unhappyClass"
    if "TabletType (Target (msgs t ! state t)) = REPLICA"
      "degradedThreshold t = 30000000000" "unhealthyThreshold t = 60000000000"
      "ReplicationLagSeconds (RealtimeStats (msgs t ! state t)) = 45" for t
    using that by (simp add: AppendDetails_def Let_def sint_lag_ns nth_append)
  have 4: "Class (AppendDetails details
               (ChangeState env REPLICA terTimestamp 45000000000 err serving s) ! length details)
        = unhappyClass"
    if w: "state s < length (msgs s)"
      and d: "degradedThreshold s = 30000000000" "unhealthyThreshold s = 60000000000"
  proof (rule 3)
    let ?t = "ChangeState env REPLICA terTimestamp 45000000000 err serving s"
    show "TabletType (Target (msgs ?t ! state ?t)) = REPLICA"
      using w by (simp add: ChangeState_stored)
    have "uint32_of_float64 (float_oob env) (Seconds (word_of_int 45 * 1000000000)) = word_of_int 45"
      by (rule uint32_whole_mult) simp_all
    then show "ReplicationLagSeconds (RealtimeStats (msgs ?t ! state ?t)) = 45"
      using w by (simp add: ChangeState_stored)
    show "degradedThreshold ?t = 30000000000" "unhealthyThreshold ?t = 60000000000"
      using d by (simp_all add: ChangeState_def Let_def clone_state_def split: prod.splits)
  qed
  from 1 2 3 4 show ?thesis by blast
qed

theorem AppendDetails_rows_witness:
  "AppendDetails [] (ChangeState env0 PRIMARY time0 45000000000 (Some ''down'') True hs0) = [] \<and>
   AppendDetails [] (ChangeState env0 REPLICA time0 45000000000 (Some ''down'') True hs0) =
     [\<lparr>Key = ''Replication Lag'', Class = unhappyClass, Value = ''45s''\<rparr>,
      \<lparr>Key = ''Replication Error'', Class = unhappyClass, Value = ''down''\<rparr>] \<and>
   AppendDetails [] (ChangeState env0 REPLICA time0 45000000000 None True hs0) =
     [\<lparr>Key = ''Replication Lag'', Class = unhappyClass, Value = ''45s''\<rparr>]"
proof -
  have w: "state hs0 < length (msgs hs0)" "state hs0 = 0"
    by (simp_all add: hs0_def newHealthStreamer_def)
  have th: "degradedThreshold (ChangeState env0 tt time0 45000000000 e True hs0) = 30000000000"
    "unhealthyThreshold (ChangeState env0 tt time0 45000000000 e True hs0) = 60000000000" for tt e
    by (simp_all add: ChangeState_def Let_def clone_state_def hs0_def newHealthStreamer_def config0_def
        split: prod.splits)
  have l: "uint32_of_float64 (float_oob env0) (Seconds 45000000000) = 45"
    using uint32_whole_mult[of 45 "float_oob env0"] by simp
  have d: "decimal 45 = ''45''"
    by code_simp
  have st: "msgs (ChangeState env0 tt time0 45000000000 e True hs0) ! 0
      = assign_state env0 tt time0 45000000000 e True (msgs hs0 ! 0)" for tt e
    using ChangeState_stored[OF w(1), of env0 tt time0 45000000000 e True] w(2) by simp
  show ?thesis
    using AppendDetails_rows[of "ChangeState env0 PRIMARY time0 45000000000 (Some ''down'') True hs0" "[]"]
      AppendDetails_rows[of "ChangeState env0 REPLICA time0 45000000000 (Some ''down'') True hs0" "[]"]
      AppendDetails_rows[of "ChangeState env0 REPLICA time0 45000000000 None True hs0" "[]"]
    by (simp add: w st th l d Let_def)
qed

subsection \<open>The effect of a broadcast\<close>

lemma send_or_evict_chans_length [simp]:
  "length (chans (send_or_evict shr ch s)) = length (chans s)"
  by (simp add: send_or_evict_def Let_def)

lemma fold_send_chans_length [simp]:
  "length (chans (fold (send_or_evict shr) xs s)) = length (chans s)"
  by (induction xs arbitrary: s) simp_all

lemma send_or_evict_chans_nth:
  "chans (send_or_evict shr x s) ! i =
     (if i = x \<and> i < length (chans s) then send_or_close shr (chans s ! i) else chans s ! i)"
  by (cases "x < length (chans s)")
    (auto simp: send_or_evict_def send_or_close_def has_room_def Let_def nth_list_update
      list_update_beyond)

lemma send_or_evict_clients:
  "clients (send_or_evict shr x s) =
     (if has_room (chans s ! x) then clients s else removeAll x (clients s))"
  by (simp add: send_or_evict_def has_room_def Let_def)

text \<open>
  The loop over the registry, whatever the order in which the map yields the channels:
  every registered channel gets the response or is closed, and the channels that had no
  room leave the registry.
\<close>

lemma fold_send_chans_nth:
  assumes "distinct xs"
  shows "chans (fold (send_or_evict shr) xs s) ! i =
     (if i \<in> set xs \<and> i < length (chans s) then send_or_close shr (chans s ! i)
      else chans s ! i)"
  using assms
proof (induction xs arbitrary: s)
  case Nil
  show ?case by simp
next
  case (Cons x xs)
  then have d: "distinct xs" and nx: "x \<notin> set xs"
    by simp_all
  show ?case
    using nx by (auto simp: Cons.IH[OF d] send_or_evict_chans_nth)
qed

lemma fold_send_clients:
  assumes "distinct xs"
  shows "clients (fold (send_or_evict shr) xs s) =
     filter (\<lambda>c. c \<notin> set xs \<or> has_room (chans s ! c)) (clients s)"
  using assms
proof (induction xs arbitrary: s)
  case Nil
  show ?case by simp
next
  case (Cons x xs)
  then have d: "distinct xs" and nx: "x \<notin> set xs"
    by simp_all
  have same: "c \<in> set xs \<Longrightarrow> chans (send_or_evict shr x s) ! c = chans s ! c" for c
    using nx by (auto simp: send_or_evict_chans_nth)
  have "clients (fold (send_or_evict shr) (x # xs) s) =
      filter (\<lambda>c. c \<notin> set xs \<or> has_room (chans (send_or_evict shr x s) ! c))
        (clients (send_or_evict shr x s))"
    by (simp add: Cons.IH[OF d])
  also have "\<dots> = filter (\<lambda>c. c \<notin> set xs \<or> has_room (chans s ! c))
        (clients (send_or_evict shr x s))"
    by (rule filter_cong) (auto simp: same)
  also have "\<dots> = filter (\<lambda>c. c \<notin> set (x # xs) \<or> has_room (chans s ! c)) (clients s)"
    by (auto simp: send_or_evict_clients removeAll_filter_not_eq intro!: filter_cong)
  finally show ?case .
qed

lemma broadCast_chans_length [simp]:
  "length (chans (broadCastToClients shr s)) = length (chans s)"
  by (simp add: broadCastToClients_def)

lemma broadCast_chans_nth:
  "distinct (clients s) \<Longrightarrow>
   chans (broadCastToClients shr s) ! i =
     (if i \<in> set (clients s) \<and> i < length (chans s) then send_or_close shr (chans s ! i)
      else chans s ! i)"
  by (simp add: broadCastToClients_def fold_send_chans_nth)

lemma broadCast_clients:
  "distinct (clients s) \<Longrightarrow>
   clients (broadCastToClients shr s) = filter (\<lambda>c. has_room (chans s ! c)) (clients s)"
  by (auto simp: broadCastToClients_def fold_send_clients intro!: filter_cong)

lemma wf_clients_broadCast:
  assumes "wf_clients s"
  shows "wf_clients (broadCastToClients shr s)"
proof -
  have d: "distinct (clients s)"
    using assms by (simp add: wf_clients_def)
  have r: "\<forall>ch \<in> set (clients s). ch < length (chans s) \<and> \<not> chan_closed (chans s ! ch)"
    using assms by (simp add: wf_clients_def list_all_iff)
  show ?thesis
    using d r by (auto simp: wf_clients_def list_all_iff broadCast_clients broadCast_chans_nth
        send_or_close_def)
qed

lemma ChangeState_chans_length [simp]:
  "length (chans (ChangeState env tabletType terTimestamp lag err serving s)) = length (chans s)"
  by (simp add: ChangeState_def Let_def clone_state_def split: prod.splits)

lemma ChangeState_chans_nth:
  "distinct (clients s) \<Longrightarrow>
   chans (ChangeState env tabletType terTimestamp lag err serving s) ! i =
     (if i \<in> set (clients s) \<and> i < length (chans s)
      then send_or_close (length (msgs s)) (chans s ! i) else chans s ! i)"
  by (simp add: ChangeState_def Let_def clone_state_def broadCast_chans_nth split: prod.splits)

lemma ChangeState_clients:
  "distinct (clients s) \<Longrightarrow>
   clients (ChangeState env tabletType terTimestamp lag err serving s) =
     filter (\<lambda>c. has_room (chans s ! c)) (clients s)"
  by (simp add: ChangeState_def Let_def clone_state_def broadCast_clients split: prod.splits)

lemma ChangeState_msgs_length [simp]:
  "length (msgs (ChangeState env tabletType terTimestamp lag err serving s)) = Suc (length (msgs s))"
  by (simp add: ChangeState_msgs Let_def)

lemma ChangeState_msgs_old:
  "a < length (msgs s) \<Longrightarrow> a \<noteq> state s \<Longrightarrow>
   msgs (ChangeState env tabletType terTimestamp lag err serving s) ! a = msgs s ! a"
  by (simp add: ChangeState_msgs Let_def nth_append)

lemma ChangeState_msgs_new:
  "state s < length (msgs s) \<Longrightarrow>
   msgs (ChangeState env tabletType terTimestamp lag err serving s) ! length (msgs s) =
   msgs (ChangeState env tabletType terTimestamp lag err serving s) ! state s"
  by (simp add: ChangeState_msgs Let_def nth_append)

lemma wf_clients_ChangeState:
  assumes "wf_clients s"
  shows "wf_clients (ChangeState env tabletType terTimestamp lag err serving s)"
proof -
  have d: "distinct (clients s)"
    using assms by (simp add: wf_clients_def)
  have r: "\<forall>ch \<in> set (clients s). ch < length (chans s) \<and> \<not> chan_closed (chans s ! ch)"
    using assms by (simp add: wf_clients_def list_all_iff)
  show ?thesis
    using d r by (auto simp: wf_clients_def list_all_iff ChangeState_clients ChangeState_chans_nth
        send_or_close_def)
qed

lemma receive_simps [simp]:
  "state (receive ch s) = state s" "msgs (receive ch s) = msgs s"
  "clients (receive ch s) = clients s" "length (chans (receive ch s)) = length (chans s)"
  by (simp_all add: receive_def)

lemma receive_chans_nth:
  "chans (receive ch s) ! i =
     (if i = ch \<and> i < length (chans s) then (chans s ! i)\<lparr>buf := tl (buf (chans s ! i))\<rparr>
      else chans s ! i)"
  by (cases "ch < length (chans s)") (auto simp: receive_def nth_list_update list_update_beyond)

lemma wf_clients_receive: "wf_clients s \<Longrightarrow> wf_clients (receive ch s)"
  by (auto simp: wf_clients_def list_all_iff receive_chans_nth)

lemma run_session:
  assumes "state s < length (msgs s)" "wf_clients s" "ch \<in> set (clients s)"
    "list_all (session_op ch) ops" "never_full ch ops s"
  shows "\<exists>s'. run ops s = Some s' \<and> state s' = state s \<and> wf_clients s' \<and>
      ch \<in> set (clients s') \<and> length (msgs s) \<le> length (msgs s') \<and>
      (\<forall>a < length (msgs s). a \<noteq> state s \<longrightarrow> msgs s' ! a = msgs s ! a) \<and>
      received ch ops s @ buf (chans s' ! ch) = buf (chans s ! ch) @ map fst (broadcasts ops s) \<and>
      (\<forall>(a, v) \<in> set (broadcasts ops s).
          length (msgs s) \<le> a \<and> a < length (msgs s') \<and> msgs s' ! a = v) \<and>
      distinct (map fst (broadcasts ops s))"
  using assms
proof (induction ops arbitrary: s)
  case Nil
  then show ?case by simp
next
  case (Cons x xs)
  have inr: "ch < length (chans s)"
    using Cons.prems(2,3) by (auto simp: wf_clients_def list_all_iff)
  have d: "distinct (clients s)"
    using Cons.prems(2) by (simp add: wf_clients_def)
  from Cons.prems(4) have sx: "session_op ch x" and sxs: "list_all (session_op ch) xs"
    by simp_all
  show ?case
  proof (cases x)
    case (OpChangeState env tabletType terTimestamp lag err serving)
    define s1 where "s1 = ChangeState env tabletType terTimestamp lag err serving s"
    have room: "has_room (chans s ! ch)" and nf: "never_full ch xs s1"
      using Cons.prems(5) by (simp_all add: OpChangeState s1_def has_room_def)
    have st: "state s1 = state s" and len: "length (msgs s1) = Suc (length (msgs s))"
      by (simp_all add: s1_def)
    have w1: "wf_clients s1"
      unfolding s1_def using Cons.prems(2) by (rule wf_clients_ChangeState)
    have in1: "ch \<in> set (clients s1)"
      using Cons.prems(3) room d by (simp add: s1_def ChangeState_clients)
    have b1: "buf (chans s1 ! ch) = buf (chans s ! ch) @ [length (msgs s)]"
      using Cons.prems(3) room d inr
      by (simp add: s1_def ChangeState_chans_nth send_or_close_def)
    have old: "\<And>a. a < length (msgs s) \<Longrightarrow> a \<noteq> state s \<Longrightarrow> msgs s1 ! a = msgs s ! a"
      by (simp add: s1_def ChangeState_msgs_old)
    have new: "msgs s1 ! length (msgs s) = msgs s1 ! state s1"
      using Cons.prems(1) by (simp add: s1_def ChangeState_msgs_new)
    have "state s1 < length (msgs s1)"
      using Cons.prems(1) st len by simp
    from Cons.IH[OF this w1 in1 sxs nf] obtain s' where
      r: "run xs s1 = Some s'" and s': "state s' = state s1" "wf_clients s'" "ch \<in> set (clients s')"
        "length (msgs s1) \<le> length (msgs s')"
      and keep: "\<forall>a < length (msgs s1). a \<noteq> state s1 \<longrightarrow> msgs s' ! a = msgs s1 ! a"
      and rec: "received ch xs s1 @ buf (chans s' ! ch)
          = buf (chans s1 ! ch) @ map fst (broadcasts xs s1)"
      and bs: "\<forall>(a, v) \<in> set (broadcasts xs s1).
          length (msgs s1) \<le> a \<and> a < length (msgs s') \<and> msgs s' ! a = v"
      and dist: "distinct (map fst (broadcasts xs s1))"
      by blast
    have bx: "broadcasts (x # xs) s = (length (msgs s), msgs s1 ! state s1) # broadcasts xs s1"
      by (simp add: OpChangeState s1_def)
    have rx: "received ch (x # xs) s = received ch xs s1"
      by (simp add: OpChangeState s1_def)
    have ne: "length (msgs s) \<noteq> state s"
      using Cons.prems(1) by simp
    have head: "msgs s' ! length (msgs s) = msgs s1 ! state s1"
      using keep len st ne new by simp
    have notin: "length (msgs s) \<notin> fst ` set (broadcasts xs s1)"
      using bs len by fastforce
    have "run (x # xs) s = Some s'"
      by (simp add: OpChangeState r flip: s1_def)
    moreover have "\<forall>a < length (msgs s). a \<noteq> state s \<longrightarrow> msgs s' ! a = msgs s ! a"
      using keep old len st by simp
    moreover have "received ch (x # xs) s @ buf (chans s' ! ch)
        = buf (chans s ! ch) @ map fst (broadcasts (x # xs) s)"
      unfolding rx bx using rec by (simp add: b1)
    moreover have "\<forall>(a, v) \<in> set (broadcasts (x # xs) s).
          length (msgs s) \<le> a \<and> a < length (msgs s') \<and> msgs s' ! a = v"
      unfolding bx using bs s'(4) len head by auto
    moreover have "distinct (map fst (broadcasts (x # xs) s))"
      unfolding bx using dist notin by simp
    ultimately show ?thesis
      using s' st len by auto
  next
    case (OpReceive c)
    with sx have c: "c = ch" by simp
    define s1 where "s1 = receive ch s"
    have nf: "never_full ch xs s1"
      using Cons.prems(5) by (simp add: OpReceive c s1_def)
    have w1: "wf_clients s1"
      unfolding s1_def using Cons.prems(2) by (rule wf_clients_receive)
    have b1: "buf (chans s1 ! ch) = tl (buf (chans s ! ch))"
      using inr by (simp add: s1_def receive_chans_nth)
    have "state s1 < length (msgs s1)" "ch \<in> set (clients s1)"
      using Cons.prems(1,3) by (simp_all add: s1_def)
    from Cons.IH[OF this(1) w1 this(2) sxs nf] obtain s' where
      r: "run xs s1 = Some s'" and s': "state s' = state s1" "wf_clients s'" "ch \<in> set (clients s')"
        "length (msgs s1) \<le> length (msgs s')"
      and keep: "\<forall>a < length (msgs s1). a \<noteq> state s1 \<longrightarrow> msgs s' ! a = msgs s1 ! a"
      and rec: "received ch xs s1 @ buf (chans s' ! ch)
          = buf (chans s1 ! ch) @ map fst (broadcasts xs s1)"
      and bs: "\<forall>(a, v) \<in> set (broadcasts xs s1).
          length (msgs s1) \<le> a \<and> a < length (msgs s') \<and> msgs s' ! a = v"
      and dist: "distinct (map fst (broadcasts xs s1))"
      by blast
    have bx: "broadcasts (x # xs) s = broadcasts xs s1"
      by (simp add: OpReceive c s1_def)
    have rx: "received ch (x # xs) s = take 1 (buf (chans s ! ch)) @ received ch xs s1"
      by (simp add: OpReceive c s1_def)
    have tk: "take 1 (buf (chans s ! ch)) @ tl (buf (chans s ! ch)) = buf (chans s ! ch)"
      by (cases "buf (chans s ! ch)") simp_all
    have "run (x # xs) s = Some s'"
      by (simp add: OpReceive c r flip: s1_def)
    moreover have "received ch (x # xs) s @ buf (chans s' ! ch)
        = buf (chans s ! ch) @ map fst (broadcasts (x # xs) s)"
      unfolding rx bx using rec tk by (simp add: b1)
    moreover have "state s1 = state s" "msgs s1 = msgs s"
      by (simp_all add: s1_def)
    ultimately show ?thesis
      unfolding bx using s' keep bs dist by simp
  qed (use sx in simp_all)
qed

text \<open>
  Claim C1, as amended. Take a registered subscriber and any sequence of \<open>ChangeState\<close>
  calls, interleaved with receives of that subscriber, in which every broadcast finds
  room in its buffer. Then the subscriber stays registered, and what it has received
  followed by what its buffer still holds is what the buffer held at the start followed
  by the broadcast responses, one for each call, in the order of the calls. Each broadcast
  response is a response freshly allocated by that call: it holds the stored state as it
  was right after the call, whatever the later calls do; it is not the stored state; and
  the responses of different calls are different objects. The broadcast responses do not
  depend on the subscriber: one call hands the same response to every subscriber.
\<close>

theorem ChangeState_sequence_delivery:
  assumes "state s < length (msgs s)" "wf_clients s" "ch \<in> set (clients s)"
    "list_all (session_op ch) ops" "never_full ch ops s"
  shows "\<exists>s'. run ops s = Some s' \<and> ch \<in> set (clients s') \<and>
      received ch ops s @ buf (chans s' ! ch) = buf (chans s ! ch) @ map fst (broadcasts ops s) \<and>
      list_all (\<lambda>(a, v). a < length (msgs s') \<and> msgs s' ! a = v \<and>
                         length (msgs s) \<le> a \<and> a \<noteq> state s') (broadcasts ops s) \<and>
      distinct (map fst (broadcasts ops s))"
proof -
  from run_session[OF assms] obtain s' where
    r: "run ops s = Some s'" "state s' = state s" "ch \<in> set (clients s')"
      "received ch ops s @ buf (chans s' ! ch) = buf (chans s ! ch) @ map fst (broadcasts ops s)"
      "distinct (map fst (broadcasts ops s))"
    and bs: "\<forall>(a, v) \<in> set (broadcasts ops s).
          length (msgs s) \<le> a \<and> a < length (msgs s') \<and> msgs s' ! a = v"
    by blast
  have "list_all (\<lambda>(a, v). a < length (msgs s') \<and> msgs s' ! a = v \<and>
                         length (msgs s) \<le> a \<and> a \<noteq> state s') (broadcasts ops s)"
    unfolding list_all_iff using bs assms(1) r(2) by fastforce
  with r show ?thesis by blast
qed

theorem ChangeState_sequence_delivery_witness:
  "\<exists>s'. run ops_example hs_one = Some s' \<and> 0 \<in> set (clients s') \<and>
      received 0 ops_example hs_one @ buf (chans s' ! 0) = [1, 2, 3] \<and>
      map fst (broadcasts ops_example hs_one) = [2, 3]"
proof -
  have h: "state hs_one < length (msgs hs_one)" "wf_clients hs_one" "0 \<in> set (clients hs_one)"
    "list_all (session_op 0) ops_example" "never_full 0 ops_example hs_one"
    by code_simp+
  have e: "buf (chans hs_one ! 0) = [1]" "map fst (broadcasts ops_example hs_one) = [2, 3]"
    by code_simp+
  show ?thesis
    using ChangeState_sequence_delivery[OF h] unfolding e by auto
qed

text \<open>
  Read as written, claim C1 also makes the response held by one subscriber independent
  of the response held by another. With two subscribers, one \<open>ChangeState\<close> puts the
  same pointer into both buffers: a write through the first subscriber's pointer changes
  what the second subscriber's pointer leads to.
\<close>

theorem ChangeState_shared_clone_counterexample:
  "last (buf (chans hs_two_changed ! 0)) = last (buf (chans hs_two_changed ! 1)) \<and>
   (msgs hs_two_changed)
     [last (buf (chans hs_two_changed ! 0)) :=
        (msgs hs_two_changed ! last (buf (chans hs_two_changed ! 0)))\<lparr>Serving := False\<rparr>]
     ! last (buf (chans hs_two_changed ! 1))
   \<noteq> msgs hs_two_changed ! last (buf (chans hs_two_changed ! 1))"
  by code_simp

subsection \<open>What the calls keep\<close>

lemma keeps_msgs_iff:
  "keeps_msgs s s' \<longleftrightarrow>
     state s' = state s \<and> state s' < length (msgs s') \<and> length (msgs s) \<le> length (msgs s') \<and>
     (\<forall>a < length (msgs s). a \<noteq> state s \<longrightarrow> msgs s' ! a = msgs s ! a)"
  by (auto simp: keeps_msgs_def list_all_iff)

lemma keeps_msgs_refl: "state s < length (msgs s) \<Longrightarrow> keeps_msgs s s"
  by (simp add: keeps_msgs_iff)

lemma keeps_msgs_trans:
  assumes "keeps_msgs s t" "keeps_msgs t u"
  shows "keeps_msgs s u"
proof -
  have "msgs u ! a = msgs s ! a" if "a < length (msgs s)" "a \<noteq> state s" for a
  proof -
    have "a < length (msgs t)" "a \<noteq> state t"
      using that assms(1) by (simp_all add: keeps_msgs_iff)
    then have "msgs u ! a = msgs t ! a"
      using assms(2) by (simp add: keeps_msgs_iff)
    also have "\<dots> = msgs s ! a"
      using that assms(1) by (simp add: keeps_msgs_iff)
    finally show ?thesis .
  qed
  then show ?thesis
    using assms by (simp add: keeps_msgs_iff)
qed

lemma keeps_msgsD:
  "keeps_msgs s s' \<Longrightarrow> a < length (msgs s) \<Longrightarrow> a \<noteq> state s \<Longrightarrow> msgs s' ! a = msgs s ! a"
  by (simp add: keeps_msgs_iff)

lemma keeps_queue_refl: "ch < length (chans s) \<Longrightarrow> keeps_queue ch s s"
  by (simp add: keeps_queue_def)

lemma take_prefix_trans:
  assumes "take (length xs) ys = xs" "take (length ys) zs = ys"
  shows "take (length xs) zs = xs"
proof -
  have "length (take (length xs) ys) = length xs"
    using assms(1) by simp
  then have "length xs \<le> length ys"
    by simp
  then have "take (length xs) zs = take (length xs) (take (length ys) zs)"
    by (simp add: min_def)
  then show ?thesis using assms by simp
qed

lemma keeps_queue_trans: "keeps_queue ch s t \<Longrightarrow> keeps_queue ch t u \<Longrightarrow> keeps_queue ch s u"
  unfolding keeps_queue_def using take_prefix_trans by blast

lemma send_or_evict_msgs_update:
  "send_or_evict shr x (s\<lparr>msgs := m\<rparr>) = (send_or_evict shr x s)\<lparr>msgs := m\<rparr>"
  by (simp add: send_or_evict_def Let_def)

lemma fold_send_msgs_update:
  "fold (send_or_evict shr) xs (s\<lparr>msgs := m\<rparr>) = (fold (send_or_evict shr) xs s)\<lparr>msgs := m\<rparr>"
  by (induction xs arbitrary: s) (simp_all add: send_or_evict_msgs_update)

lemma broadCast_msgs_update [simp]:
  "broadCastToClients shr (s\<lparr>msgs := m\<rparr>) = (broadCastToClients shr s)\<lparr>msgs := m\<rparr>"
  by (simp add: broadCastToClients_def fold_send_msgs_update)

lemma send_or_evict_unhealthy_update:
  "send_or_evict shr x (s\<lparr>unhealthyThreshold := v\<rparr>)
     = (send_or_evict shr x s)\<lparr>unhealthyThreshold := v\<rparr>"
  by (simp add: send_or_evict_def Let_def)

lemma fold_send_unhealthy_update:
  "fold (send_or_evict shr) xs (s\<lparr>unhealthyThreshold := v\<rparr>)
     = (fold (send_or_evict shr) xs s)\<lparr>unhealthyThreshold := v\<rparr>"
  by (induction xs arbitrary: s) (simp_all add: send_or_evict_unhealthy_update)

lemma broadCast_unhealthy_update [simp]:
  "broadCastToClients shr (s\<lparr>unhealthyThreshold := v\<rparr>)
     = (broadCastToClients shr s)\<lparr>unhealthyThreshold := v\<rparr>"
  by (simp add: broadCastToClients_def fold_send_unhealthy_update)

lemma send_or_evict_init_update:
  "send_or_evict shr x (s\<lparr>initSuccess := v\<rparr>) = (send_or_evict shr x s)\<lparr>initSuccess := v\<rparr>"
  by (simp add: send_or_evict_def Let_def)

lemma fold_send_init_update:
  "fold (send_or_evict shr) xs (s\<lparr>initSuccess := v\<rparr>)
     = (fold (send_or_evict shr) xs s)\<lparr>initSuccess := v\<rparr>"
  by (induction xs arbitrary: s) (simp_all add: send_or_evict_init_update)

lemma broadCast_init_update [simp]:
  "broadCastToClients shr (s\<lparr>initSuccess := v\<rparr>) = (broadCastToClients shr s)\<lparr>initSuccess := v\<rparr>"
  by (simp add: broadCastToClients_def fold_send_init_update)

text \<open>The three broadcasting methods, with the broadcast innermost.\<close>

lemma ChangeState_alt:
  "ChangeState env tabletType terTimestamp lag err serving s =
     (let st = assign_state env tabletType terTimestamp lag err serving (msgs s ! state s);
          ms = (msgs s)[state s := st] @ [(msgs s)[state s := st] ! state s]
      in (broadCastToClients (length (msgs s)) s)
           \<lparr>msgs := ms,
            history := history_Add
              \<lparr>Time = Now env, hr_serving = Serving (ms ! length (msgs s)),
               hr_tabletType = TabletType (Target (ms ! length (msgs s))), hr_lag = lag,
               hr_err = err\<rparr> (history s)\<rparr>)"
proof -
  have h: "history (broadCastToClients shr s) = history s" for shr
    by (subst broadCast_frame) simp
  show ?thesis
    by (simp add: ChangeState_def Let_def clone_state_def h nth_append split: prod.splits)
qed

lemma SetUnhealthyThreshold_alt:
  "SetUnhealthyThreshold v s =
     (broadCastToClients (length (msgs s)) s)
       \<lparr>unhealthyThreshold := v, msgs := msgs s @ [msgs s ! state s]\<rparr>"
  by (simp add: SetUnhealthyThreshold_def Let_def clone_state_def
      flip: broadCastToClients_def split: prod.splits)

lemma publish_tables_alt:
  "publish_tables tables s =
     (let st = msgs s ! state s;
          st1 = st\<lparr>RealtimeStats := (RealtimeStats st)\<lparr>TableSchemaChanged := tables\<rparr>\<rparr>;
          ms = (msgs s)[state s := st1] @ [(msgs s)[state s := st1] ! state s]
      in (broadCastToClients (length (msgs s)) s)
           \<lparr>msgs := ms[state s := (ms ! state s)
               \<lparr>RealtimeStats := (RealtimeStats (ms ! state s))\<lparr>TableSchemaChanged := []\<rparr>\<rparr>]\<rparr>)"
  by (simp add: publish_tables_def Let_def clone_state_def split: prod.splits)

lemma fold_send_queue:
  "take (length (buf (chans s ! i))) (buf (chans (fold (send_or_evict shr) xs s) ! i))
     = buf (chans s ! i)"
proof (induction xs arbitrary: s)
  case Nil
  show ?case by simp
next
  case (Cons x xs)
  have "take (length (buf (chans s ! i))) (buf (chans (send_or_evict shr x s) ! i))
      = buf (chans s ! i)"
    by (simp add: send_or_evict_chans_nth send_or_close_def)
  with Cons.IH[of "send_or_evict shr x s"] show ?case
    by (simp add: take_prefix_trans)
qed

lemma broadCast_queue:
  "take (length (buf (chans s ! i))) (buf (chans (broadCastToClients shr s) ! i))
     = buf (chans s ! i)"
  unfolding broadCastToClients_def by (rule fold_send_queue)

lemma keeps_queue_broadCast:
  assumes "ch < length (chans s)" "chans t = chans s"
  shows "keeps_queue ch s (broadCastToClients shr t)"
  using assms broadCast_queue[of t ch shr] by (simp add: keeps_queue_def)

lemma ChangeState_queue:
  "ch < length (chans s) \<Longrightarrow>
   keeps_queue ch s (ChangeState env tabletType terTimestamp lag err serving s)"
  by (simp add: ChangeState_alt Let_def keeps_queue_def broadCast_queue)

lemma ChangeState_keeps_msgs:
  "state s < length (msgs s) \<Longrightarrow>
   keeps_msgs s (ChangeState env tabletType terTimestamp lag err serving s)"
  by (simp add: keeps_msgs_iff ChangeState_msgs_old)

lemma SetUnhealthyThreshold_simps [simp]:
  "state (SetUnhealthyThreshold v s) = state s"
  "msgs (SetUnhealthyThreshold v s) = msgs s @ [msgs s ! state s]"
  "length (chans (SetUnhealthyThreshold v s)) = length (chans s)"
  by (simp_all add: SetUnhealthyThreshold_alt)

lemma SetUnhealthyThreshold_queue:
  "ch < length (chans s) \<Longrightarrow> keeps_queue ch s (SetUnhealthyThreshold v s)"
  by (simp add: SetUnhealthyThreshold_alt keeps_queue_def broadCast_queue)

lemma SetUnhealthyThreshold_keeps_msgs:
  "state s < length (msgs s) \<Longrightarrow> keeps_msgs s (SetUnhealthyThreshold v s)"
  by (simp add: keeps_msgs_iff nth_append)

lemma publish_tables_simps [simp]:
  "state (publish_tables tables s) = state s"
  "length (chans (publish_tables tables s)) = length (chans s)"
  "length (msgs (publish_tables tables s)) = Suc (length (msgs s))"
  by (simp_all add: publish_tables_alt Let_def)

lemma publish_tables_msgs:
  "state s < length (msgs s) \<Longrightarrow>
   msgs (publish_tables tables s) =
     (msgs s)[state s := (msgs s ! state s)
        \<lparr>RealtimeStats := (RealtimeStats (msgs s ! state s))\<lparr>TableSchemaChanged := []\<rparr>\<rparr>]
     @ [(msgs s ! state s)
        \<lparr>RealtimeStats := (RealtimeStats (msgs s ! state s))\<lparr>TableSchemaChanged := tables\<rparr>\<rparr>]"
  by (simp add: publish_tables_alt Let_def nth_append list_update_append)

lemma publish_tables_queue:
  "ch < length (chans s) \<Longrightarrow> keeps_queue ch s (publish_tables tables s)"
  by (simp add: publish_tables_alt Let_def keeps_queue_def broadCast_queue)

lemma publish_tables_keeps_msgs:
  "state s < length (msgs s) \<Longrightarrow> keeps_msgs s (publish_tables tables s)"
  by (simp add: keeps_msgs_iff publish_tables_msgs nth_append)

text \<open>The exits of \<open>reload\<close>, in the order of the source.\<close>

lemma reload_not_primary:
  "TabletType (Target (msgs s ! state s)) \<noteq> PRIMARY \<Longrightarrow> reload my db s = Some (None, s, [])"
  by (simp add: reload_def)

lemma reload_panics:
  "TabletType (Target (msgs s ! state s)) = PRIMARY \<Longrightarrow> conns s = None \<Longrightarrow>
   reload my db s = None"
  by (simp add: reload_def)

lemma reload_Get_fails:
  "TabletType (Target (msgs s ! state s)) = PRIMARY \<Longrightarrow> conns s = Some pool \<Longrightarrow>
   pool_Get db = Some e \<Longrightarrow>
   reload my db s = Some (Some e, s, [CallGet])"
  by (simp add: reload_def)

lemma reload_init_fails:
  "TabletType (Target (msgs s ! state s)) = PRIMARY \<Longrightarrow> conns s = Some pool \<Longrightarrow>
   pool_Get db = None \<Longrightarrow>
   snd (fst (init_step my db s)) = Some e \<Longrightarrow>
   reload my db s = Some (Some e, s\<lparr>initSuccess := fst (fst (init_step my db s))\<rparr>,
                     CallGet # snd (init_step my db s) @ [CallRecycle])"
  by (simp add: reload_def Let_def)

lemma reload_Stream_fails:
  "TabletType (Target (msgs s ! state s)) = PRIMARY \<Longrightarrow> conns s = Some pool \<Longrightarrow>
   pool_Get db = None \<Longrightarrow>
   snd (fst (init_step my db s)) = None \<Longrightarrow>
   snd (conn_Stream db (DetectSchemaChange my)) = Some e \<Longrightarrow>
   reload my db s = Some (Some e, s\<lparr>initSuccess := fst (fst (init_step my db s))\<rparr>,
                     CallGet # snd (init_step my db s) @
                     [CallStream (DetectSchemaChange my), CallRecycle])"
  by (simp add: reload_def Let_def)

lemma reload_no_change:
  "TabletType (Target (msgs s ! state s)) = PRIMARY \<Longrightarrow> conns s = Some pool \<Longrightarrow>
   pool_Get db = None \<Longrightarrow>
   snd (fst (init_step my db s)) = None \<Longrightarrow>
   snd (conn_Stream db (DetectSchemaChange my)) = None \<Longrightarrow>
   detected_tables my db = [] \<Longrightarrow>
   reload my db s = Some (None, s\<lparr>initSuccess := fst (fst (init_step my db s))\<rparr>,
                     CallGet # snd (init_step my db s) @
                     [CallStream (DetectSchemaChange my), CallRecycle])"
  by (simp add: reload_def Let_def)

lemma reload_begin_fails:
  "TabletType (Target (msgs s ! state s)) = PRIMARY \<Longrightarrow> conns s = Some pool \<Longrightarrow> pool_Get db = None \<Longrightarrow>
   snd (fst (init_step my db s)) = None \<Longrightarrow>
   snd (conn_Stream db (DetectSchemaChange my)) = None \<Longrightarrow>
   detected_tables my db \<noteq> [] \<Longrightarrow>
   conn_Exec db ''begin'' = Some e \<Longrightarrow>
   reload my db s = Some (Some e, s\<lparr>initSuccess := fst (fst (init_step my db s))\<rparr>,
                     CallGet # snd (init_step my db s) @
                     [CallStream (DetectSchemaChange my), CallExec ''begin'', CallRecycle])"
  by (simp add: reload_def Let_def)

lemma reload_del_fails:
  "TabletType (Target (msgs s ! state s)) = PRIMARY \<Longrightarrow> conns s = Some pool \<Longrightarrow> pool_Get db = None \<Longrightarrow>
   snd (fst (init_step my db s)) = None \<Longrightarrow>
   snd (conn_Stream db (DetectSchemaChange my)) = None \<Longrightarrow>
   detected_tables my db \<noteq> [] \<Longrightarrow>
   conn_Exec db ''begin'' = None \<Longrightarrow>
   conn_Exec db (del_statement my (detected_tables my db)) = Some e \<Longrightarrow>
   reload my db s = Some (Some e, s\<lparr>initSuccess := fst (fst (init_step my db s))\<rparr>,
                     CallGet # snd (init_step my db s) @
                     [CallStream (DetectSchemaChange my), CallExec ''begin'',
                      CallExec (del_statement my (detected_tables my db)),
                      CallExec ''rollback'', CallRecycle])"
  by (simp add: reload_def Let_def)

lemma reload_upd_fails:
  "TabletType (Target (msgs s ! state s)) = PRIMARY \<Longrightarrow> conns s = Some pool \<Longrightarrow> pool_Get db = None \<Longrightarrow>
   snd (fst (init_step my db s)) = None \<Longrightarrow>
   snd (conn_Stream db (DetectSchemaChange my)) = None \<Longrightarrow>
   detected_tables my db \<noteq> [] \<Longrightarrow>
   conn_Exec db ''begin'' = None \<Longrightarrow>
   conn_Exec db (del_statement my (detected_tables my db)) = None \<Longrightarrow>
   conn_Exec db (upd_statement my (detected_tables my db)) = Some e \<Longrightarrow>
   reload my db s = Some (Some e, s\<lparr>initSuccess := fst (fst (init_step my db s))\<rparr>,
                     CallGet # snd (init_step my db s) @
                     [CallStream (DetectSchemaChange my), CallExec ''begin'',
                      CallExec (del_statement my (detected_tables my db)),
                      CallExec (upd_statement my (detected_tables my db)),
                      CallExec ''rollback'', CallRecycle])"
  by (simp add: reload_def Let_def)

lemma reload_commit_fails:
  "TabletType (Target (msgs s ! state s)) = PRIMARY \<Longrightarrow> conns s = Some pool \<Longrightarrow> pool_Get db = None \<Longrightarrow>
   snd (fst (init_step my db s)) = None \<Longrightarrow>
   snd (conn_Stream db (DetectSchemaChange my)) = None \<Longrightarrow>
   detected_tables my db \<noteq> [] \<Longrightarrow>
   conn_Exec db ''begin'' = None \<Longrightarrow>
   conn_Exec db (del_statement my (detected_tables my db)) = None \<Longrightarrow>
   conn_Exec db (upd_statement my (detected_tables my db)) = None \<Longrightarrow>
   conn_Exec db ''commit'' = Some e \<Longrightarrow>
   reload my db s = Some (Some e, s\<lparr>initSuccess := fst (fst (init_step my db s))\<rparr>,
                     CallGet # snd (init_step my db s) @
                     [CallStream (DetectSchemaChange my), CallExec ''begin'',
                      CallExec (del_statement my (detected_tables my db)),
                      CallExec (upd_statement my (detected_tables my db)),
                      CallExec ''commit'', CallExec ''rollback'', CallRecycle])"
  by (simp add: reload_def Let_def)

lemma reload_commits:
  "TabletType (Target (msgs s ! state s)) = PRIMARY \<Longrightarrow> conns s = Some pool \<Longrightarrow> pool_Get db = None \<Longrightarrow>
   snd (fst (init_step my db s)) = None \<Longrightarrow>
   snd (conn_Stream db (DetectSchemaChange my)) = None \<Longrightarrow>
   detected_tables my db \<noteq> [] \<Longrightarrow>
   conn_Exec db ''begin'' = None \<Longrightarrow>
   conn_Exec db (del_statement my (detected_tables my db)) = None \<Longrightarrow>
   conn_Exec db (upd_statement my (detected_tables my db)) = None \<Longrightarrow>
   conn_Exec db ''commit'' = None \<Longrightarrow>
   reload my db s =
     Some (None,
      publish_tables (detected_tables my db) (s\<lparr>initSuccess := fst (fst (init_step my db s))\<rparr>),
      CallGet # snd (init_step my db s) @
      [CallStream (DetectSchemaChange my), CallExec ''begin'',
       CallExec (del_statement my (detected_tables my db)),
       CallExec (upd_statement my (detected_tables my db)),
       CallExec ''commit'', CallExec ''rollback'', CallRecycle])"
  by (simp add: reload_def Let_def)

text \<open>
  Every run of \<open>reload\<close> leaves by one of these exits: it panics, on a primary without a
  pool; or it returns an error and changes at most the flag \<open>initSuccess\<close>; or it returns
  no error and changes at most that flag; or it commits and publishes the detected
  tables, which are not empty.
\<close>

lemma reload_cases:
  obtains
    (panics) "reload my db s = None" "TabletType (Target (msgs s ! state s)) = PRIMARY"
      "conns s = None"
  | (failed) e b calls where "reload my db s = Some (Some e, s\<lparr>initSuccess := b\<rparr>, calls)"
  | (unchanged) b calls where "reload my db s = Some (None, s\<lparr>initSuccess := b\<rparr>, calls)"
  | (published) b calls where "detected_tables my db \<noteq> []"
      "reload my db s =
         Some (None, publish_tables (detected_tables my db) (s\<lparr>initSuccess := b\<rparr>), calls)"
proof (cases "TabletType (Target (msgs s ! state s)) = PRIMARY")
  case False
  then have "reload my db s = Some (None, s\<lparr>initSuccess := initSuccess s\<rparr>, [])"
    by (simp add: reload_not_primary)
  then show thesis
    by (rule unchanged)
next
  case p: True
  show thesis
  proof (cases "conns s")
    case None
    with p show thesis
      by (intro panics reload_panics)
  next
    case c: (Some pool)
    show thesis
    proof (cases "pool_Get db")
      case (Some e)
      then have "reload my db s = Some (Some e, s\<lparr>initSuccess := initSuccess s\<rparr>, [CallGet])"
        using p c by (simp add: reload_Get_fails)
      then show thesis
        by (rule failed)
    next
      case g: None
      show thesis
      proof (cases "snd (fst (init_step my db s))")
        case (Some e)
        with p c g have "\<exists>calls. reload my db s = Some (Some e, s\<lparr>initSuccess := fst (fst (init_step my db s))\<rparr>, calls)"
          by (simp add: reload_init_fails)
        then obtain calls where r: "reload my db s = Some (Some e, s\<lparr>initSuccess := fst (fst (init_step my db s))\<rparr>, calls)"
          by (elim exE)
        show thesis
          by (rule failed[OF r])
      next
        case i: None
        show thesis
        proof (cases "snd (conn_Stream db (DetectSchemaChange my))")
          case (Some e)
          with p c g i have "\<exists>calls. reload my db s = Some (Some e, s\<lparr>initSuccess := fst (fst (init_step my db s))\<rparr>, calls)"
            by (simp add: reload_Stream_fails)
          then obtain calls where r: "reload my db s = Some (Some e, s\<lparr>initSuccess := fst (fst (init_step my db s))\<rparr>, calls)"
            by (elim exE)
          show thesis
            by (rule failed[OF r])
        next
          case st: None
          show thesis
          proof (cases "detected_tables my db = []")
            case True
            with p c g i st have "\<exists>calls. reload my db s = Some (None, s\<lparr>initSuccess := fst (fst (init_step my db s))\<rparr>, calls)"
              by (simp add: reload_no_change)
            then obtain calls where r: "reload my db s = Some (None, s\<lparr>initSuccess := fst (fst (init_step my db s))\<rparr>, calls)"
              by (elim exE)
            show thesis
              by (rule unchanged[OF r])
          next
            case t: False
            show thesis
            proof (cases "conn_Exec db ''begin''")
              case (Some e)
              with p c g i st t have "\<exists>calls. reload my db s = Some (Some e, s\<lparr>initSuccess := fst (fst (init_step my db s))\<rparr>, calls)"
                by (simp add: reload_begin_fails)
              then obtain calls where r: "reload my db s = Some (Some e, s\<lparr>initSuccess := fst (fst (init_step my db s))\<rparr>, calls)"
                by (elim exE)
              show thesis
                by (rule failed[OF r])
            next
              case b: None
              show thesis
              proof (cases "conn_Exec db (del_statement my (detected_tables my db))")
                case (Some e)
                with p c g i st t b have "\<exists>calls. reload my db s = Some (Some e, s\<lparr>initSuccess := fst (fst (init_step my db s))\<rparr>, calls)"
                  by (simp add: reload_del_fails)
                then obtain calls where r: "reload my db s = Some (Some e, s\<lparr>initSuccess := fst (fst (init_step my db s))\<rparr>, calls)"
                  by (elim exE)
                show thesis
                  by (rule failed[OF r])
              next
                case d: None
                show thesis
                proof (cases "conn_Exec db (upd_statement my (detected_tables my db))")
                  case (Some e)
                  with p c g i st t b d have "\<exists>calls. reload my db s = Some (Some e, s\<lparr>initSuccess := fst (fst (init_step my db s))\<rparr>, calls)"
                    by (simp add: reload_upd_fails)
                  then obtain calls where r: "reload my db s = Some (Some e, s\<lparr>initSuccess := fst (fst (init_step my db s))\<rparr>, calls)"
                    by (elim exE)
                  show thesis
                    by (rule failed[OF r])
                next
                  case u: None
                  show thesis
                  proof (cases "conn_Exec db ''commit''")
                    case (Some e)
                    with p c g i st t b d u have "\<exists>calls. reload my db s = Some (Some e, s\<lparr>initSuccess := fst (fst (init_step my db s))\<rparr>, calls)"
                      by (simp add: reload_commit_fails)
                    then obtain calls where r: "reload my db s = Some (Some e, s\<lparr>initSuccess := fst (fst (init_step my db s))\<rparr>, calls)"
                      by (elim exE)
                    show thesis
                      by (rule failed[OF r])
                  next
                    case None
                    with p c g i st t b d u have "\<exists>calls. reload my db s = Some (None, publish_tables (detected_tables my db) (s\<lparr>initSuccess := fst (fst (init_step my db s))\<rparr>), calls)"
                      by (simp add: reload_commits)
                    then obtain calls where r: "reload my db s = Some (None, publish_tables (detected_tables my db) (s\<lparr>initSuccess := fst (fst (init_step my db s))\<rparr>), calls)"
                      by (elim exE)
                    show thesis
                      by (rule published[OF t r])
                  qed
                qed
              qed
            qed
          qed
        qed
      qed
    qed
  qed
qed

lemma reload_queue:
  assumes "ch < length (chans s)" "reload my db s = Some (e, s', calls)"
  shows "keeps_queue ch s s'"
proof (cases rule: reload_cases[of my db s])
  case (published b calls)
  have "keeps_queue ch (s\<lparr>initSuccess := b\<rparr>)
      (publish_tables (detected_tables my db) (s\<lparr>initSuccess := b\<rparr>))"
    using assms(1) by (intro publish_tables_queue) simp
  then show ?thesis
    using assms(2) published by (auto simp: keeps_queue_def)
qed (use assms in \<open>auto simp: keeps_queue_def\<close>)

lemma reload_keeps_msgs:
  assumes "state s < length (msgs s)" "reload my db s = Some (e, s', calls)"
  shows "keeps_msgs s s'"
proof (cases rule: reload_cases[of my db s])
  case (published b calls)
  have "keeps_msgs (s\<lparr>initSuccess := b\<rparr>)
      (publish_tables (detected_tables my db) (s\<lparr>initSuccess := b\<rparr>))"
    using assms(1) by (intro publish_tables_keeps_msgs) simp
  then show ?thesis
    using assms(2) published by (auto simp: keeps_msgs_iff)
qed (use assms in \<open>auto simp: keeps_msgs_iff\<close>)

subsection \<open>Registration\<close>

lemma register_closed: "cancel s = None \<Longrightarrow> register n s = RegNil"
  by (simp add: register_def)

lemma register_blocks: "cancel s \<noteq> None \<Longrightarrow> register 0 s = RegBlocks"
  by (simp add: register_def Let_def clone_state_def)

lemma register_open:
  assumes "cancel s \<noteq> None" "0 < n"
  shows "register n s =
     Registered (length (chans s)) (ctx s)
       (s\<lparr>chans := chans s @ [\<lparr>buf = [length (msgs s)], cap = n, chan_closed = False\<rparr>],
          clients := clients s @ [length (chans s)],
          msgs := msgs s @ [msgs s ! state s]\<rparr>)"
  using assms by (simp add: register_def Let_def clone_state_def)

lemma register_cases:
  obtains (closed) "cancel s = None" "register n s = RegNil"
  | (blocks) "cancel s \<noteq> None" "n = 0" "register n s = RegBlocks"
  | (registered) "cancel s \<noteq> None" "0 < n"
      "register n s =
         Registered (length (chans s)) (ctx s)
           (s\<lparr>chans := chans s @ [\<lparr>buf = [length (msgs s)], cap = n, chan_closed = False\<rparr>],
              clients := clients s @ [length (chans s)],
              msgs := msgs s @ [msgs s ! state s]\<rparr>)"
  using register_closed[of s n] register_blocks[of s] register_open[of s n]
  by (cases "cancel s = None"; cases "n = 0") auto

lemma unregister_simps [simp]:
  "state (unregister ch s) = state s" "msgs (unregister ch s) = msgs s"
  "chans (unregister ch s) = chans s" "ctxs (unregister ch s) = ctxs s"
  "clients (unregister ch s) = removeAll ch (clients s)"
  by (simp_all add: unregister_def)

lemma InitDBConfig_simps [simp]:
  "state (InitDBConfig target cp s) = state s" "chans (InitDBConfig target cp s) = chans s"
  "length (msgs (InitDBConfig target cp s)) = length (msgs s)"
  "ctxs (InitDBConfig target cp s) = ctxs s" "clients (InitDBConfig target cp s) = clients s"
  by (simp_all add: InitDBConfig_def)

lemma InitDBConfig_msgs_old:
  "a \<noteq> state s \<Longrightarrow> msgs (InitDBConfig target cp s) ! a = msgs s ! a"
  by (simp add: InitDBConfig_def)

lemma Open_simps:
  assumes "Open s = Some s'"
  shows "state s' = state s" "msgs s' = msgs s" "chans s' = chans s" "clients s' = clients s"
  using assms by (auto simp: Open_def Let_def split: if_splits option.splits)

lemma Close_simps:
  assumes "Close s = Some s'"
  shows "state s' = state s" "msgs s' = msgs s" "chans s' = chans s" "clients s' = clients s"
  using assms by (auto simp: Close_def Let_def split: option.splits)

text \<open>
  No call frees or overwrites a response other than the stored state, and no call but a
  receive takes anything out of a channel.
\<close>

lemma apply_op_keeps_msgs:
  assumes "state s < length (msgs s)" "apply_op x s = Some s'"
  shows "keeps_msgs s s'"
proof (cases x)
  case (OpChangeState env tabletType terTimestamp lag err serving)
  then show ?thesis
    using assms ChangeState_keeps_msgs by auto
next
  case (OpSetUnhealthyThreshold v)
  then show ?thesis
    using assms SetUnhealthyThreshold_keeps_msgs by auto
next
  case (OpReload my db)
  with assms(2) obtain e calls where "reload my db s = Some (e, s', calls)"
    by auto
  with assms(1) show ?thesis
    by (rule reload_keeps_msgs)
next
  case (OpRegister n)
  show ?thesis
  proof (cases rule: register_cases[of s n])
    case registered
    then show ?thesis
      using assms OpRegister by (auto simp: keeps_msgs_iff nth_append)
  qed (use assms OpRegister in \<open>auto simp: keeps_msgs_iff\<close>)
next
  case (OpInitDBConfig target cp)
  then show ?thesis
    using assms by (auto simp: keeps_msgs_iff InitDBConfig_msgs_old)
next
  case OpOpen
  then show ?thesis
    using assms Open_simps[of s s'] by (simp add: keeps_msgs_iff)
next
  case OpClose
  then show ?thesis
    using assms Close_simps[of s s'] by (simp add: keeps_msgs_iff)
qed (use assms in \<open>auto simp: keeps_msgs_iff\<close>)

lemma apply_op_keeps_queue:
  assumes "ch < length (chans s)" "other_op ch x" "apply_op x s = Some s'"
  shows "keeps_queue ch s s'"
proof (cases x)
  case (OpChangeState env tabletType terTimestamp lag err serving)
  then show ?thesis
    using assms ChangeState_queue by auto
next
  case (OpSetUnhealthyThreshold v)
  then show ?thesis
    using assms SetUnhealthyThreshold_queue by auto
next
  case (OpReload my db)
  with assms(3) obtain e calls where "reload my db s = Some (e, s', calls)"
    by auto
  with assms(1) show ?thesis
    by (rule reload_queue)
next
  case (OpRegister n)
  show ?thesis
  proof (cases rule: register_cases[of s n])
    case registered
    then show ?thesis
      using assms OpRegister by (auto simp: keeps_queue_def nth_append)
  qed (use assms OpRegister in \<open>auto simp: keeps_queue_def\<close>)
next
  case (OpReceive c)
  then show ?thesis
    using assms by (auto simp: keeps_queue_def receive_chans_nth)
next
  case OpOpen
  then show ?thesis
    using assms Open_simps[of s s'] by (simp add: keeps_queue_def)
next
  case OpClose
  then show ?thesis
    using assms Close_simps[of s s'] by (simp add: keeps_queue_def)
qed (use assms in \<open>auto simp: keeps_queue_def\<close>)

lemma run_keeps:
  assumes "state s < length (msgs s)" "ch < length (chans s)" "list_all (other_op ch) ops"
    "run ops s = Some s'"
  shows "keeps_msgs s s' \<and> keeps_queue ch s s'"
  using assms
proof (induction ops arbitrary: s)
  case Nil
  then show ?case
    by (simp add: keeps_msgs_refl keeps_queue_refl)
next
  case (Cons x xs)
  from Cons.prems(4) obtain s1 where a: "apply_op x s = Some s1" and r: "run xs s1 = Some s'"
    by (auto split: option.splits)
  have k1: "keeps_msgs s s1"
    using Cons.prems(1) a by (rule apply_op_keeps_msgs)
  have q1: "keeps_queue ch s s1"
    using Cons.prems(2,3) a by (intro apply_op_keeps_queue) simp_all
  have "state s1 < length (msgs s1)" "ch < length (chans s1)"
    using k1 q1 by (simp_all add: keeps_msgs_iff keeps_queue_def)
  from Cons.IH[OF this _ r] Cons.prems(3) have "keeps_msgs s1 s' \<and> keeps_queue ch s1 s'"
    by simp
  with k1 q1 show ?case
    using keeps_msgs_trans keeps_queue_trans by blast
qed

text \<open>
  Claim C7. A registration succeeds when the streamer is open and the buffer size is
  not zero. It then allocates a clone of the stored state, whatever happened to the
  streamer before, and the new channel holds exactly that clone. Through every later
  sequence of calls, short of a receive from this channel, the clone stays at the head of
  the channel's queue and keeps the value the stored state had at the registration: every
  later broadcast is queued behind it.
\<close>

theorem register_first_item:
  assumes "cancel s \<noteq> None" "0 < n" "state s < length (msgs s)"
  shows "\<exists>s1. register n s = Registered (length (chans s)) (ctx s) s1 \<and>
      length (chans s) \<in> set (clients s1) \<and>
      buf (chans s1 ! length (chans s)) = [length (msgs s)] \<and>
      msgs s1 ! length (msgs s) = msgs s ! state s \<and>
      msgs s1 ! state s1 = msgs s ! state s \<and>
      length (msgs s) \<noteq> state s1 \<and>
      (\<forall>ops s2. list_all (other_op (length (chans s))) ops \<and> run ops s1 = Some s2 \<longrightarrow>
         buf (chans s2 ! length (chans s)) \<noteq> [] \<and>
         hd (buf (chans s2 ! length (chans s))) = length (msgs s) \<and>
         msgs s2 ! length (msgs s) = msgs s ! state s)"
proof -
  define s1 where "s1 =
    s\<lparr>chans := chans s @ [\<lparr>buf = [length (msgs s)], cap = n, chan_closed = False\<rparr>],
      clients := clients s @ [length (chans s)],
      msgs := msgs s @ [msgs s ! state s]\<rparr>"
  have r: "register n s = Registered (length (chans s)) (ctx s) s1"
    unfolding s1_def using assms(1,2) by (rule register_open)
  have b: "buf (chans s1 ! length (chans s)) = [length (msgs s)]"
    and m: "msgs s1 ! length (msgs s) = msgs s ! state s"
    and st: "state s1 = state s" "state s1 < length (msgs s1)"
    and l: "length (chans s) < length (chans s1)" "length (msgs s) < length (msgs s1)"
    using assms(3) by (simp_all add: s1_def)
  have later: "buf (chans s2 ! length (chans s)) \<noteq> [] \<and>
         hd (buf (chans s2 ! length (chans s))) = length (msgs s) \<and>
         msgs s2 ! length (msgs s) = msgs s ! state s"
    if "list_all (other_op (length (chans s))) ops" "run ops s1 = Some s2" for ops s2
  proof -
    from run_keeps[OF st(2) l(1) that] have km: "keeps_msgs s1 s2"
      and kq: "keeps_queue (length (chans s)) s1 s2"
      by simp_all
    from kq b have t: "take 1 (buf (chans s2 ! length (chans s))) = [length (msgs s)]"
      by (simp add: keeps_queue_def)
    then have ne: "buf (chans s2 ! length (chans s)) \<noteq> []"
      by auto
    with t have "hd (buf (chans s2 ! length (chans s))) = length (msgs s)"
      by (cases "buf (chans s2 ! length (chans s))") simp_all
    moreover have "msgs s2 ! length (msgs s) = msgs s1 ! length (msgs s)"
      using km l(2) st assms(3) by (intro keeps_msgsD) simp_all
    ultimately show ?thesis
      using ne m by simp
  qed
  have "length (chans s) \<in> set (clients s1)" "msgs s1 ! state s1 = msgs s ! state s"
    "length (msgs s) \<noteq> state s1"
    using assms(3) by (simp_all add: s1_def nth_append)
  with r b m later show ?thesis
    by blast
qed

theorem register_first_item_witness:
  "\<exists>s1 s2. register 3 (opened hs0) = Registered 0 (Some 0) s1 \<and> run ops_later s1 = Some s2 \<and>
     buf (chans s1 ! 0) = [1] \<and> hd (buf (chans s2 ! 0)) = 1 \<and>
     msgs s2 ! 1 = msgs (opened hs0) ! 0"
proof -
  have h: "cancel (opened hs0) \<noteq> None" "(0::nat) < 3" "state (opened hs0) < length (msgs (opened hs0))"
    by code_simp+
  have e: "length (chans (opened hs0)) = 0" "ctx (opened hs0) = Some 0"
    "length (msgs (opened hs0)) = 1" "state (opened hs0) = 0"
    by code_simp+
  from register_first_item[OF h] obtain s1 where
    r: "register 3 (opened hs0) = Registered 0 (Some 0) s1" "buf (chans s1 ! 0) = [1]"
    and later: "\<And>ops s2. list_all (other_op 0) ops \<Longrightarrow> run ops s1 = Some s2 \<Longrightarrow>
       hd (buf (chans s2 ! 0)) = 1 \<and> msgs s2 ! 1 = msgs (opened hs0) ! 0"
    unfolding e by blast
  have s1: "s1 = hs_one"
    using r(1) by (simp add: hs_one_def subscribe_def)
  have o: "list_all (other_op 0) ops_later"
    by code_simp
  have "run ops_later hs_one \<noteq> None"
    by code_simp
  then obtain s2 where s2: "run ops_later s1 = Some s2"
    unfolding s1 by blast
  from later[OF o s2] r s2 show ?thesis
    by blast
qed

subsection \<open>Overflow\<close>

lemma SetUnhealthyThreshold_chans_nth:
  "distinct (clients s) \<Longrightarrow>
   chans (SetUnhealthyThreshold v s) ! i =
     (if i \<in> set (clients s) \<and> i < length (chans s)
      then send_or_close (length (msgs s)) (chans s ! i) else chans s ! i)"
  by (simp add: SetUnhealthyThreshold_alt broadCast_chans_nth)

lemma SetUnhealthyThreshold_clients:
  "distinct (clients s) \<Longrightarrow>
   clients (SetUnhealthyThreshold v s) = filter (\<lambda>c. has_room (chans s ! c)) (clients s)"
  by (simp add: SetUnhealthyThreshold_alt broadCast_clients)

lemma wf_clients_SetUnhealthyThreshold:
  assumes "wf_clients s"
  shows "wf_clients (SetUnhealthyThreshold v s)"
proof -
  have d: "distinct (clients s)"
    using assms by (simp add: wf_clients_def)
  have r: "\<forall>ch \<in> set (clients s). ch < length (chans s) \<and> \<not> chan_closed (chans s ! ch)"
    using assms by (simp add: wf_clients_def list_all_iff)
  show ?thesis
    using d r by (auto simp: wf_clients_def list_all_iff SetUnhealthyThreshold_clients
        SetUnhealthyThreshold_chans_nth send_or_close_def)
qed

text \<open>One broadcasting call, seen from one channel.\<close>

lemma broadcast_op_effect:
  assumes "wf_clients s" "is_broadcast x"
  shows "\<exists>s'. apply_op x s = Some s' \<and> wf_clients s' \<and> length (chans s') = length (chans s) \<and>
      clients s' = filter (\<lambda>c. has_room (chans s ! c)) (clients s) \<and>
      (\<forall>i. chans s' ! i =
         (if i \<in> set (clients s) \<and> i < length (chans s)
          then send_or_close (length (msgs s)) (chans s ! i) else chans s ! i))"
proof -
  have d: "distinct (clients s)"
    using assms(1) by (simp add: wf_clients_def)
  show ?thesis
  proof (cases x)
    case (OpChangeState env tabletType terTimestamp lag err serving)
    then show ?thesis
      using d assms(1)
      by (simp add: ChangeState_chans_nth ChangeState_clients wf_clients_ChangeState)
  next
    case (OpSetUnhealthyThreshold v)
    then show ?thesis
      using d assms(1)
      by (simp add: SetUnhealthyThreshold_chans_nth SetUnhealthyThreshold_clients
          wf_clients_SetUnhealthyThreshold)
  qed (use assms(2) in simp_all)
qed

lemma broadcasts_fit:
  assumes "wf_clients s" "ch \<in> set (clients s)" "list_all is_broadcast ops"
    "length (buf (chans s ! ch)) + length ops \<le> cap (chans s ! ch)"
  shows "\<exists>s'. run ops s = Some s' \<and> wf_clients s' \<and> ch \<in> set (clients s') \<and>
      cap (chans s' ! ch) = cap (chans s ! ch) \<and>
      length (buf (chans s' ! ch)) = length (buf (chans s ! ch)) + length ops"
  using assms
proof (induction ops arbitrary: s)
  case Nil
  then show ?case by simp
next
  case (Cons x xs)
  have inr: "ch < length (chans s)"
    using Cons.prems(1,2) by (auto simp: wf_clients_def list_all_iff)
  have room: "has_room (chans s ! ch)"
    using Cons.prems(4) by (simp add: has_room_def)
  from broadcast_op_effect[OF Cons.prems(1)] Cons.prems(3) obtain s1 where
    a: "apply_op x s = Some s1" and w: "wf_clients s1"
    and cl: "clients s1 = filter (\<lambda>c. has_room (chans s ! c)) (clients s)"
    and ch: "\<And>i. chans s1 ! i =
         (if i \<in> set (clients s) \<and> i < length (chans s)
          then send_or_close (length (msgs s)) (chans s ! i) else chans s ! i)"
    by auto
  have c1: "chans s1 ! ch = (chans s ! ch)\<lparr>buf := buf (chans s ! ch) @ [length (msgs s)]\<rparr>"
    using ch[of ch] Cons.prems(2) inr room by (simp add: send_or_close_def)
  have in1: "ch \<in> set (clients s1)"
    using cl Cons.prems(2) room by simp
  have "length (buf (chans s1 ! ch)) + length xs \<le> cap (chans s1 ! ch)"
    using Cons.prems(4) by (simp add: c1)
  from Cons.IH[OF w in1 _ this] Cons.prems(3) obtain s' where
    "run xs s1 = Some s'" "wf_clients s'" "ch \<in> set (clients s')"
    "cap (chans s' ! ch) = cap (chans s1 ! ch)"
    "length (buf (chans s' ! ch)) = length (buf (chans s1 ! ch)) + length xs"
    by auto
  then show ?case
    using a by (simp add: c1)
qed

lemma broadcasts_after_eviction:
  assumes "wf_clients s" "ch \<notin> set (clients s)" "list_all is_broadcast ops"
  shows "\<exists>s'. run ops s = Some s' \<and> ch \<notin> set (clients s') \<and> chans s' ! ch = chans s ! ch \<and>
      length (chans s') = length (chans s)"
  using assms
proof (induction ops arbitrary: s)
  case Nil
  then show ?case by simp
next
  case (Cons x xs)
  from broadcast_op_effect[OF Cons.prems(1)] Cons.prems(3) obtain s1 where
    a: "apply_op x s = Some s1" and w: "wf_clients s1"
    and l: "length (chans s1) = length (chans s)"
    and cl: "clients s1 = filter (\<lambda>c. has_room (chans s ! c)) (clients s)"
    and ch: "\<And>i. chans s1 ! i =
         (if i \<in> set (clients s) \<and> i < length (chans s)
          then send_or_close (length (msgs s)) (chans s ! i) else chans s ! i)"
    by auto
  have n1: "ch \<notin> set (clients s1)" and c1: "chans s1 ! ch = chans s ! ch"
    using cl ch[of ch] Cons.prems(2) by simp_all
  from Cons.IH[OF w n1] Cons.prems(3) obtain s' where
    "run xs s1 = Some s'" "ch \<notin> set (clients s')" "chans s' ! ch = chans s1 ! ch"
    "length (chans s') = length (chans s1)"
    by auto
  then show ?case
    using a c1 l by simp
qed

lemma run_append:
  "run (xs @ ys) s = (case run xs s of None \<Rightarrow> None | Some s1 \<Rightarrow> run ys s1)"
  by (induction xs arbitrary: s) (simp_all split: option.splits)

text \<open>
  A session that keeps receiving from a closed channel is handed what the channel
  buffered and then the closed channel's \<open>!ok\<close>.
\<close>

lemma Stream_loop_Recv_item:
  "buf (chans s ! ch) = a # rest \<Longrightarrow> callback (msgs s ! a) = CbNil \<Longrightarrow>
   Stream_loop (Recv # sched) ctx_done callback ch hsCtx s =
   Stream_loop sched ctx_done callback ch hsCtx
     (s\<lparr>chans := (chans s)[ch := (chans s ! ch)\<lparr>buf := rest\<rparr>]\<rparr>)"
  by simp

lemma Stream_loop_drain:
  assumes "ch < length (chans s)" "chan_closed (chans s ! ch)"
    "\<forall>a \<in> set (buf (chans s ! ch)). callback (msgs s ! a) = CbNil"
    "length (buf (chans s ! ch)) = n"
  shows "fst (Stream_loop (replicate (Suc n) Recv) ctx_done callback ch hsCtx s)
      = Returned (Some errOverflow)"
  using assms
proof (induction n arbitrary: s)
  case 0
  then show ?case by simp
next
  case (Suc n)
  then obtain a rest where b: "buf (chans s ! ch) = a # rest"
    by (cases "buf (chans s ! ch)") simp_all
  define s1 where "s1 = s\<lparr>chans := (chans s)[ch := (chans s ! ch)\<lparr>buf := rest\<rparr>]\<rparr>"
  have c: "callback (msgs s ! a) = CbNil"
    using Suc.prems(3) b by simp
  have i: "fst (Stream_loop (replicate (Suc n) Recv) ctx_done callback ch hsCtx s1)
      = Returned (Some errOverflow)"
    using Suc.prems b by (intro Suc.IH) (simp_all add: s1_def)
  have "Stream_loop (replicate (Suc (Suc n)) Recv) ctx_done callback ch hsCtx s
      = Stream_loop (replicate (Suc n) Recv) ctx_done callback ch hsCtx s1"
    unfolding s1_def replicate_Suc[of "Suc n"] using b c by (rule Stream_loop_Recv_item)
  with i show ?case
    by (simp only:)
qed

text \<open>
  Claim C2, as amended. Take a registered subscriber whose channel has capacity \<open>B\<close> and
  holds \<open>k\<close> responses, and let broadcasts follow with no receive. The first \<open>B - k\<close>
  broadcasts are queued and leave the subscriber registered with a full buffer. The next
  broadcast, number \<open>B - k + 1\<close>, closes the channel and deletes it from the registry,
  leaving the buffer as it is. The broadcasts after that do not touch the channel. A
  session that then keeps receiving is handed the \<open>B\<close> buffered responses and, when its
  callback accepts them, returns the ResourceExhausted error; as long as the shutdown
  context is not done and the caller has not cancelled, the receive is the only case that
  is ready.
\<close>

theorem overflow_eviction:
  assumes "wf_clients s" "ch \<in> set (clients s)" "list_all is_broadcast (pre @ x # post)"
    "length (buf (chans s ! ch)) + length pre = cap (chans s ! ch)"
  shows "\<exists>s1 s2 s3. run pre s = Some s1 \<and> apply_op x s1 = Some s2 \<and> run post s2 = Some s3 \<and>
      run (pre @ x # post) s = Some s3 \<and>
      ch \<in> set (clients s1) \<and> \<not> chan_closed (chans s1 ! ch) \<and>
      length (buf (chans s1 ! ch)) = cap (chans s ! ch) \<and>
      ch \<notin> set (clients s2) \<and> chans s2 ! ch = (chans s1 ! ch)\<lparr>chan_closed := True\<rparr> \<and>
      ch \<notin> set (clients s3) \<and> chans s3 ! ch = chans s2 ! ch \<and>
      (\<forall>ctx_done callback hsCtx.
          (\<forall>a \<in> set (buf (chans s3 ! ch)). callback (msgs s3 ! a) = CbNil) \<longrightarrow>
          fst (Stream_loop (replicate (Suc (cap (chans s ! ch))) Recv) ctx_done callback ch hsCtx s3)
            = Returned (Some errOverflow)) \<and>
      (\<forall>hsCtx. \<not> ctxs s3 ! hsCtx \<longrightarrow> select_ready False ch hsCtx s3 = [Recv])"
proof -
  from assms(3) have bp: "list_all is_broadcast pre" and bx: "is_broadcast x"
    and bq: "list_all is_broadcast post"
    by simp_all
  from broadcasts_fit[OF assms(1,2) bp] assms(4) obtain s1 where
    r1: "run pre s = Some s1" and w1: "wf_clients s1" and in1: "ch \<in> set (clients s1)"
    and cap1: "cap (chans s1 ! ch) = cap (chans s ! ch)"
    and len1: "length (buf (chans s1 ! ch)) = cap (chans s ! ch)"
    by auto
  have inr: "ch < length (chans s1)" and open1: "\<not> chan_closed (chans s1 ! ch)"
    using w1 in1 by (auto simp: wf_clients_def list_all_iff)
  have full: "\<not> has_room (chans s1 ! ch)"
    using cap1 len1 by (simp add: has_room_def)
  from broadcast_op_effect[OF w1 bx] obtain s2 where
    a2: "apply_op x s1 = Some s2" and w2: "wf_clients s2"
    and l2: "length (chans s2) = length (chans s1)"
    and cl2: "clients s2 = filter (\<lambda>c. has_room (chans s1 ! c)) (clients s1)"
    and ch2: "\<And>i. chans s2 ! i =
         (if i \<in> set (clients s1) \<and> i < length (chans s1)
          then send_or_close (length (msgs s1)) (chans s1 ! i) else chans s1 ! i)"
    by auto
  have out2: "ch \<notin> set (clients s2)"
    using cl2 full by simp
  have c2: "chans s2 ! ch = (chans s1 ! ch)\<lparr>chan_closed := True\<rparr>"
    using ch2[of ch] in1 inr full by (simp add: send_or_close_def)
  from broadcasts_after_eviction[OF w2 out2 bq] obtain s3 where
    r3: "run post s2 = Some s3" and out3: "ch \<notin> set (clients s3)"
    and c3: "chans s3 ! ch = chans s2 ! ch"
    and l3': "length (chans s3) = length (chans s2)"
    by auto
  have l3: "ch < length (chans s3)"
    using l3' l2 inr by simp
  have closed3: "chan_closed (chans s3 ! ch)" and len3: "length (buf (chans s3 ! ch)) = cap (chans s ! ch)"
    by (simp_all add: c3 c2 len1)
  have drain: "fst (Stream_loop (replicate (Suc (cap (chans s ! ch))) Recv) ctx_done callback ch hsCtx s3)
            = Returned (Some errOverflow)"
    if "\<forall>a \<in> set (buf (chans s3 ! ch)). callback (msgs s3 ! a) = CbNil"
    for ctx_done callback hsCtx
    using l3 closed3 that len3 by (rule Stream_loop_drain)
  have ready: "select_ready False ch hsCtx s3 = [Recv]" if "\<not> ctxs s3 ! hsCtx" for hsCtx
    using that closed3 by (simp add: select_ready_def)
  have "run (pre @ x # post) s = Some s3"
    by (simp add: run_append r1 a2 r3)
  with r1 a2 r3 in1 open1 len1 out2 c2 out3 c3 drain ready show ?thesis
    by blast
qed

theorem overflow_eviction_witness:
  "\<exists>s1 s2 s3. run [change45, change46] hs_one = Some s1 \<and> apply_op change47 s1 = Some s2 \<and>
      run [change45] s2 = Some s3 \<and> 0 \<in> set (clients s1) \<and> length (buf (chans s1 ! 0)) = 3 \<and>
      0 \<notin> set (clients s2) \<and> chan_closed (chans s2 ! 0) \<and> chans s3 ! 0 = chans s2 ! 0 \<and>
      fst (Stream_loop [Recv, Recv, Recv, Recv] False (\<lambda>v. CbNil) 0 0 s3)
        = Returned (Some errOverflow)"
proof -
  have h: "wf_clients hs_one" "0 \<in> set (clients hs_one)"
    "list_all is_broadcast ([change45, change46] @ change47 # [change45])"
    "length (buf (chans hs_one ! 0)) + length [change45, change46] = cap (chans hs_one ! 0)"
    by code_simp+
  have c: "cap (chans hs_one ! 0) = 3"
    by code_simp
  have r: "replicate (Suc 3) Recv = [Recv, Recv, Recv, Recv]"
    by (simp add: numeral_3_eq_3)
  from overflow_eviction[OF h] obtain s1 s2 s3 where
    a: "run [change45, change46] hs_one = Some s1" "apply_op change47 s1 = Some s2"
      "run [change45] s2 = Some s3" "0 \<in> set (clients s1)" "length (buf (chans s1 ! 0)) = 3"
      "0 \<notin> set (clients s2)" "chans s2 ! 0 = (chans s1 ! 0)\<lparr>chan_closed := True\<rparr>"
      "chans s3 ! 0 = chans s2 ! 0"
    and d: "\<And>ctx_done callback hsCtx.
          (\<forall>a \<in> set (buf (chans s3 ! 0)). callback (msgs s3 ! a) = CbNil) \<Longrightarrow>
          fst (Stream_loop [Recv, Recv, Recv, Recv] ctx_done callback 0 hsCtx s3)
            = Returned (Some errOverflow)"
    unfolding c r by blast
  have "fst (Stream_loop [Recv, Recv, Recv, Recv] False (\<lambda>v. CbNil) 0 0 s3)
        = Returned (Some errOverflow)"
    by (rule d) simp
  with a show ?thesis
    by (intro exI[of _ s1] exI[of _ s2] exI[of _ s3]) simp
qed

text \<open>
  Read as written, claim C2 has the channel closed during broadcast number \<open>B + 1\<close>.
  A subscriber that has read nothing since it registered still holds the response that
  \<open>register\<close> queued: with \<open>B = 3\<close> it is registered before the three broadcasts and is
  closed and deleted after them, before any fourth.
\<close>

theorem overflow_after_B_counterexample:
  "cap (chans hs_one ! 0) = 3 \<and> length three_changes = 3 \<and>
   list_all is_broadcast three_changes \<and> 0 \<in> set (clients hs_one) \<and>
   run three_changes hs_one = Some hs_evicted \<and>
   0 \<notin> set (clients hs_evicted) \<and> chan_closed (chans hs_evicted ! 0)"
  by code_simp

subsection \<open>Shutdown\<close>

lemma ChangeState_ctx [simp]:
  "ctxs (ChangeState env tabletType terTimestamp lag err serving s) = ctxs s"
  "cancel (ChangeState env tabletType terTimestamp lag err serving s) = cancel s"
  by (simp_all add: ChangeState_alt Let_def)

lemma SetUnhealthyThreshold_ctx [simp]:
  "ctxs (SetUnhealthyThreshold v s) = ctxs s" "cancel (SetUnhealthyThreshold v s) = cancel s"
  by (simp_all add: SetUnhealthyThreshold_alt)

lemma publish_tables_ctx [simp]:
  "ctxs (publish_tables tables s) = ctxs s" "cancel (publish_tables tables s) = cancel s"
  by (simp_all add: publish_tables_alt Let_def)

lemma reload_ctx:
  "reload my db s = Some (e, s', calls) \<Longrightarrow> ctxs s' = ctxs s \<and> cancel s' = cancel s"
  by (cases rule: reload_cases[of my db s]) auto

lemma receive_ctx [simp]: "ctxs (receive ch s) = ctxs s" "cancel (receive ch s) = cancel s"
  by (simp_all add: receive_def)

lemma InitDBConfig_cancel [simp]: "cancel (InitDBConfig target cp s) = cancel s"
  by (simp add: InitDBConfig_def)

lemma unregister_cancel [simp]: "cancel (unregister ch s) = cancel s"
  by (simp add: unregister_def)

lemma register_ctx:
  "register n s = Registered ch hsCtx s1 \<Longrightarrow> ctxs s1 = ctxs s \<and> cancel s1 = cancel s"
  by (cases rule: register_cases[of s n]) auto

lemma apply_op_ctx:
  assumes "apply_op x s = Some s'"
  shows "Open s = Some s' \<or> Close s = Some s' \<or> (ctxs s' = ctxs s \<and> cancel s' = cancel s)"
proof (cases x)
  case (OpRegister n)
  then show ?thesis
    using assms register_ctx[of n s] by (auto split: register_result.splits)
next
  case (OpReload my db)
  with assms obtain e calls where "reload my db s = Some (e, s', calls)"
    by auto
  then show ?thesis
    using reload_ctx by blast
qed (use assms in auto)

lemma nth_update_True: "xs ! c \<Longrightarrow> xs[i := True] ! c"
  by (cases "i < length xs") (auto simp: nth_list_update list_update_beyond)

lemma Open_ctxs:
  assumes "Open s = Some s'"
  shows "s' = s \<or> (cancel s = None \<and> ctxs s' = ctxs s @ [False] \<and> cancel s' = Some (length (ctxs s)))"
proof (cases "cancel s = None")
  case False
  with assms show ?thesis
    by (simp add: Open_def)
next
  case True
  with assms have "ctxs s' = ctxs s @ [False] \<and> cancel s' = Some (length (ctxs s))"
    by (cases "conns s"; cases "ticks s"; cases "pool_Open (dbConfig s) (the (conns s))")
       (auto simp: Open_def Let_def)
  with True show ?thesis
    by simp
qed

lemma Close_ctxs:
  assumes "Close s = Some s'"
  shows "(cancel s = None \<and> s' = s) \<or>
     (\<exists>c. cancel s = Some c \<and> ctxs s' = (ctxs s)[c := True] \<and> cancel s' = None)"
  using assms by (cases "cancel s"; cases "ticks s"; cases "conns s") (auto simp: Close_def)

lemma holds_ctx_Open: "holds_ctx c s \<Longrightarrow> Open s = Some s' \<Longrightarrow> holds_ctx c s'"
  using Open_ctxs[of s s'] by (auto simp: holds_ctx_def nth_append)

lemma holds_ctx_Close: "holds_ctx c s \<Longrightarrow> Close s = Some s' \<Longrightarrow> holds_ctx c s'"
  using Close_ctxs[of s s'] by (auto simp: holds_ctx_def nth_update_True)

lemma holds_ctx_apply_op:
  assumes "holds_ctx c s" "apply_op x s = Some s'"
  shows "holds_ctx c s'"
proof -
  from apply_op_ctx[OF assms(2)] consider "Open s = Some s'" | "Close s = Some s'"
    | "ctxs s' = ctxs s \<and> cancel s' = cancel s"
    by blast
  then show ?thesis
  proof cases
    case 1
    with assms(1) show ?thesis
      by (rule holds_ctx_Open)
  next
    case 2
    with assms(1) show ?thesis
      by (rule holds_ctx_Close)
  next
    case 3
    with assms(1) show ?thesis
      by (simp add: holds_ctx_def)
  qed
qed

lemma holds_ctx_run: "holds_ctx c s \<Longrightarrow> run ops s = Some s' \<Longrightarrow> holds_ctx c s'"
proof (induction ops arbitrary: s)
  case Nil
  then show ?case by simp
next
  case (Cons x xs)
  from Cons.prems(2) obtain t where t: "apply_op x s = Some t" "run xs t = Some s'"
    by (auto split: option.splits)
  from holds_ctx_apply_op[OF Cons.prems(1) t(1)] t(2) show ?case
    by (rule Cons.IH)
qed

lemma done_Open: "c < length (ctxs s) \<Longrightarrow> ctxs s ! c \<Longrightarrow> Open s = Some s' \<Longrightarrow>
    c < length (ctxs s') \<and> ctxs s' ! c"
  using Open_ctxs[of s s'] by (auto simp: nth_append)

lemma done_Close: "c < length (ctxs s) \<Longrightarrow> ctxs s ! c \<Longrightarrow> Close s = Some s' \<Longrightarrow>
    c < length (ctxs s') \<and> ctxs s' ! c"
  using Close_ctxs[of s s'] by (auto simp: nth_update_True)

lemma done_apply_op:
  assumes "c < length (ctxs s)" "ctxs s ! c" "apply_op x s = Some s'"
  shows "c < length (ctxs s') \<and> ctxs s' ! c"
proof -
  from apply_op_ctx[OF assms(3)] consider "Open s = Some s'" | "Close s = Some s'"
    | "ctxs s' = ctxs s \<and> cancel s' = cancel s"
    by blast
  then show ?thesis
  proof cases
    case 1
    with assms(1,2) show ?thesis
      by (rule done_Open)
  next
    case 2
    with assms(1,2) show ?thesis
      by (rule done_Close)
  next
    case 3
    with assms(1,2) show ?thesis
      by simp
  qed
qed

text \<open>A context that is done stays done, whatever is called.\<close>

lemma done_run:
  "c < length (ctxs s) \<Longrightarrow> ctxs s ! c \<Longrightarrow> run ops s = Some s' \<Longrightarrow>
   c < length (ctxs s') \<and> ctxs s' ! c"
proof (induction ops arbitrary: s)
  case Nil
  then show ?case by simp
next
  case (Cons x xs)
  from Cons.prems(3) obtain t where t: "apply_op x s = Some t" "run xs t = Some s'"
    by (auto split: option.splits)
  from done_apply_op[OF Cons.prems(1,2) t(1)] Cons.IH[of t] t(2) show ?case
    by simp
qed

lemma holds_ctx_closed:
  "holds_ctx c s \<Longrightarrow> Close s = Some s' \<Longrightarrow> c < length (ctxs s') \<and> ctxs s' ! c"
  using Close_ctxs[of s s'] by (auto simp: holds_ctx_def nth_update_True)

lemma Close_cancel: "Close s = Some s' \<Longrightarrow> cancel s' = None"
  using Close_ctxs[of s s'] by auto

lemma Stream_closed:
  "cancel s = None \<Longrightarrow> Stream n sched ctx_done callback s = (Returned (Some errShutdown), s)"
  by (simp add: Stream_def register_closed)

lemma register_holds_ctx:
  assumes "wf_ctx s" "cancel s \<noteq> None" "0 < n"
  shows "\<exists>c s1. register n s = Registered (length (chans s)) (Some c) s1 \<and> holds_ctx c s1"
proof -
  from assms(2) obtain c where c: "cancel s = Some c"
    by auto
  with assms(1) have x: "ctx s = Some c" "c < length (ctxs s)"
    by (simp_all add: wf_ctx_def)
  show ?thesis
    using register_open[OF assms(2,3)] x c by (simp add: holds_ctx_def)
qed

text \<open>
  With the shutdown context done, the caller's context not done, the channel open and a
  callback that accepts every response, a session can only deliver from its buffer and
  then return the shutdown error: no schedule longer than the buffer lets it do
  anything else.
\<close>

lemma Stream_loop_shutdown:
  assumes "ctxs s ! c" "ch < length (chans s)" "\<not> chan_closed (chans s ! ch)"
    "\<forall>v. callback v = CbNil" "length (buf (chans s ! ch)) < length sched"
  shows "fst (Stream_loop sched False callback ch c s) \<in> {Returned (Some errShutdown), NotReady}"
  using assms
proof (induction sched arbitrary: s)
  case Nil
  then show ?case by simp
next
  case (Cons x xs)
  show ?case
  proof (cases x)
    case CtxDone
    then show ?thesis by simp
  next
    case HsCtxDone
    then show ?thesis using Cons.prems(1) by simp
  next
    case Recv
    show ?thesis
    proof (cases "buf (chans s ! ch)")
      case Nil
      then show ?thesis
        using Recv Cons.prems(3) by simp
    next
      case (Cons a rest)
      define s1 where "s1 = s\<lparr>chans := (chans s)[ch := (chans s ! ch)\<lparr>buf := rest\<rparr>]\<rparr>"
      have c: "callback (msgs s ! a) = CbNil"
        using Cons.prems(4) by simp
      have e: "Stream_loop (x # xs) False callback ch c s = Stream_loop xs False callback ch c s1"
        unfolding Recv s1_def using Cons c by (rule Stream_loop_Recv_item)
      have "fst (Stream_loop xs False callback ch c s1) \<in> {Returned (Some errShutdown), NotReady}"
        using Cons.prems Cons by (intro Cons.IH) (simp_all add: s1_def)
      then show ?thesis
        by (simp only: e)
    qed
  qed
qed

text \<open>
  Claim C6, as amended. A \<open>Stream\<close> call on a streamer whose cancel function is nil
  returns the Unavailable error at once, before any \<open>select\<close>, and leaves the streamer
  as it is; the cancel function is nil before the first \<open>Open\<close> and after every
  \<open>Close\<close> that returned. A session that registered holds a shutdown context; after a
  \<open>Close\<close>, and whatever is called before or after it, that context is done. From then
  on the shutdown case is ready at every \<open>select\<close> of the session, and the session
  returns the Unavailable error whenever that case is picked. It is the only case that
  is ready when the caller has not cancelled and the channel is open and empty; and when
  the caller has not cancelled, the channel is open and the callback accepts every
  response, the session can do nothing but deliver what is buffered and then return the
  Unavailable error.
\<close>

theorem Stream_unavailable:
  "(cancel s = None \<longrightarrow> Stream n sched ctx_done callback s = (Returned (Some errShutdown), s)) \<and>
   errShutdown = vterror Code_UNAVAILABLE ''tabletserver is shutdown'' \<and>
   cancel (newHealthStreamer config tabletAlias) = None \<and>
   (\<forall>s'. Close s = Some s' \<longrightarrow> cancel s' = None) \<and>
   (wf_ctx s \<and> cancel s \<noteq> None \<and> 0 < n \<longrightarrow>
      (\<exists>c s1. register n s = Registered (length (chans s)) (Some c) s1 \<and> holds_ctx c s1)) \<and>
   (holds_ctx c s \<and> run ops s = Some s1 \<and> Close s1 = Some s1' \<and> run ops' s1' = Some s2 \<longrightarrow>
      c < length (ctxs s2) \<and> ctxs s2 ! c \<and>
      HsCtxDone \<in> set (select_ready ctx_done ch c s2) \<and>
      Stream_loop (HsCtxDone # sched) ctx_done callback ch c s2 = (Returned (Some errShutdown), s2) \<and>
      (\<not> ctx_done \<and> buf (chans s2 ! ch) = [] \<and> \<not> chan_closed (chans s2 ! ch) \<longrightarrow>
         select_ready ctx_done ch c s2 = [HsCtxDone]) \<and>
      (ch < length (chans s2) \<and> \<not> chan_closed (chans s2 ! ch) \<and> (\<forall>v. callback v = CbNil) \<and>
       length (buf (chans s2 ! ch)) < length sched \<longrightarrow>
         fst (Stream_loop sched False callback ch c s2) \<in> {Returned (Some errShutdown), NotReady}))"
proof -
  have 1: "cancel s = None \<longrightarrow> Stream n sched ctx_done callback s = (Returned (Some errShutdown), s)"
    by (simp add: Stream_closed)
  have 2: "cancel (newHealthStreamer config tabletAlias) = None"
    "\<forall>s'. Close s = Some s' \<longrightarrow> cancel s' = None"
    by (simp_all add: newHealthStreamer_def Close_cancel)
  have 3: "wf_ctx s \<and> cancel s \<noteq> None \<and> 0 < n \<longrightarrow>
      (\<exists>c s1. register n s = Registered (length (chans s)) (Some c) s1 \<and> holds_ctx c s1)"
    using register_holds_ctx[of s n] by blast
  have 4: "c < length (ctxs s2) \<and> ctxs s2 ! c \<and>
      HsCtxDone \<in> set (select_ready ctx_done ch c s2) \<and>
      Stream_loop (HsCtxDone # sched) ctx_done callback ch c s2 = (Returned (Some errShutdown), s2) \<and>
      (\<not> ctx_done \<and> buf (chans s2 ! ch) = [] \<and> \<not> chan_closed (chans s2 ! ch) \<longrightarrow>
         select_ready ctx_done ch c s2 = [HsCtxDone]) \<and>
      (ch < length (chans s2) \<and> \<not> chan_closed (chans s2 ! ch) \<and> (\<forall>v. callback v = CbNil) \<and>
       length (buf (chans s2 ! ch)) < length sched \<longrightarrow>
         fst (Stream_loop sched False callback ch c s2) \<in> {Returned (Some errShutdown), NotReady})"
    if h: "holds_ctx c s" and r: "run ops s = Some s1" "Close s1 = Some s1'" "run ops' s1' = Some s2"
  proof -
    have "holds_ctx c s1"
      using h r(1) by (rule holds_ctx_run)
    then have "c < length (ctxs s1') \<and> ctxs s1' ! c"
      using r(2) by (rule holds_ctx_closed)
    then have d: "c < length (ctxs s2) \<and> ctxs s2 ! c"
      using r(3) done_run by blast
    then show ?thesis
      using Stream_loop_shutdown[of s2 c ch callback sched]
      by (simp add: select_ready_def)
  qed
  from 1 2 3 4 show ?thesis
    by (simp add: errShutdown_def)
qed

theorem Stream_unavailable_witness:
  "Stream 3 [Recv] False (\<lambda>v. CbNil) hs0 = (Returned (Some errShutdown), hs0) \<and>
   (\<exists>s1. register 3 (opened hs0) = Registered 0 (Some 0) s1 \<and> holds_ctx 0 s1) \<and>
   Close hs_drained = Some hs_drained_closed \<and>
   cancel hs_drained_closed = None \<and>
   ctxs hs_drained_closed ! 0 \<and>
   select_ready False 0 0 hs_drained_closed = [HsCtxDone] \<and>
   Stream_loop [HsCtxDone] False (\<lambda>v. CbNil) 0 0 hs_drained_closed
     = (Returned (Some errShutdown), hs_drained_closed) \<and>
   fst (Stream_loop [HsCtxDone] False (\<lambda>v. CbNil) 0 0 hs_drained_closed)
     \<in> {Returned (Some errShutdown), NotReady}"
proof -
  have a: "cancel hs0 = None"
    by code_simp
  have b: "wf_ctx (opened hs0) \<and> cancel (opened hs0) \<noteq> None \<and> (0::nat) < 3"
    "length (chans (opened hs0)) = 0"
    by code_simp+
  have c: "holds_ctx 0 hs_drained \<and> run [] hs_drained = Some hs_drained \<and>
      Close hs_drained = Some hs_drained_closed \<and>
      run [] hs_drained_closed = Some hs_drained_closed"
    by code_simp
  have d: "\<not> False \<and> buf (chans hs_drained_closed ! 0) = [] \<and>
      \<not> chan_closed (chans hs_drained_closed ! 0)"
    "0 < length (chans hs_drained_closed) \<and> \<not> chan_closed (chans hs_drained_closed ! 0) \<and>
      length (buf (chans hs_drained_closed ! 0)) < length [HsCtxDone]"
    by code_simp+
  have e: "register 3 (opened hs0) = Registered 0 (Some 0) hs_one"
    by code_simp
  have p1: "Stream 3 [Recv] False (\<lambda>v. CbNil) hs0 = (Returned (Some errShutdown), hs0)"
    using Stream_unavailable[where s = "hs0" and n = 3 and sched = "[Recv]" and ctx_done = False
        and callback = "\<lambda>v. CbNil" and config = config0 and tabletAlias = alias0
        and c = 0 and ops = "[]" and ?s1.0 = "hs0" and ?s1' = hs_drained_closed
        and ops' = "[]" and ?s2.0 = hs_drained_closed and ch = 0] a
    by simp
  have "\<exists>c s1. register 3 (opened hs0) = Registered (length (chans (opened hs0))) (Some c) s1 \<and>
      holds_ctx c s1"
    using Stream_unavailable[where s = "opened hs0" and n = 3 and sched = "[Recv]" and ctx_done = False
        and callback = "\<lambda>v. CbNil" and config = config0 and tabletAlias = alias0
        and c = 0 and ops = "[]" and ?s1.0 = "opened hs0" and ?s1' = hs_drained_closed
        and ops' = "[]" and ?s2.0 = hs_drained_closed and ch = 0] b(1)
    by simp
  then have p2: "\<exists>s1. register 3 (opened hs0) = Registered 0 (Some 0) s1 \<and> holds_ctx 0 s1"
    unfolding e by simp
  note t = Stream_unavailable[where s = "hs_drained" and n = 3 and sched = "[HsCtxDone]" and ctx_done = False
        and callback = "\<lambda>v. CbNil" and config = config0 and tabletAlias = alias0
        and c = 0 and ops = "[]" and ?s1.0 = "hs_drained" and ?s1' = hs_drained_closed
        and ops' = "[]" and ?s2.0 = hs_drained_closed and ch = 0]
  have p3: "cancel hs_drained_closed = None"
    using t c by simp
  have p4: "ctxs hs_drained_closed ! 0"
    "Stream_loop [HsCtxDone] False (\<lambda>v. CbNil) 0 0 hs_drained_closed
        = (Returned (Some errShutdown), hs_drained_closed)"
    "select_ready False 0 0 hs_drained_closed = [HsCtxDone]"
    "fst (Stream_loop [HsCtxDone] False (\<lambda>v. CbNil) 0 0 hs_drained_closed)
        \<in> {Returned (Some errShutdown), NotReady}"
    using t c d by simp_all
  from p1 p2 p3 p4 c show ?thesis
    by simp
qed

text \<open>
  Read as written, claim C6 lets every session that is in flight at a \<open>Close\<close> return
  Unavailable. The session of \<open>hs_one\<close> was evicted by three broadcasts before the
  \<open>Close\<close>: its shutdown context is done, and yet, with the caller's context done too, a
  \<open>select\<close> may pick the caller's case and return nil; or it may pick the receive case
  four times and return ResourceExhausted.
\<close>

theorem Stream_after_Close_counterexample:
  "register 3 (opened hs0) = Registered 0 (Some 0) hs_one \<and>
   run three_changes hs_one = Some hs_evicted \<and>
   Close hs_evicted = Some hs_evicted_closed \<and>
   ctxs hs_evicted_closed ! 0 \<and>
   CtxDone \<in> set (select_ready True 0 0 hs_evicted_closed) \<and>
   Stream_loop [CtxDone] True (\<lambda>v. CbNil) 0 0 hs_evicted_closed = (Returned None, hs_evicted_closed) \<and>
   Recv \<in> set (select_ready False 0 0 hs_evicted_closed) \<and>
   fst (Stream_loop [Recv, Recv, Recv, Recv] False (\<lambda>v. CbNil) 0 0 hs_evicted_closed)
     = Returned (Some errOverflow) \<and>
   Returned (Some errOverflow) \<noteq> Returned (Some errShutdown)"
  by code_simp

subsection \<open>Repeated calls\<close>

lemma assign_state_idem:
  "assign_state env tabletType terTimestamp lag err serving
     (assign_state env tabletType terTimestamp lag err serving st)
   = assign_state env tabletType terTimestamp lag err serving st"
  by (simp add: assign_state_def Let_def)

lemma broadCast_other_fields:
  "ticks (broadCastToClients shr s) = ticks s" "dbConfig (broadCastToClients shr s) = dbConfig s"
  "conns (broadCastToClients shr s) = conns s" "initSuccess (broadCastToClients shr s) = initSuccess s"
  "signalWhenSchemaChange (broadCastToClients shr s) = signalWhenSchemaChange s"
  "history (broadCastToClients shr s) = history s"
  by (subst broadCast_frame, simp)+

lemma ChangeState_other_fields:
  "degradedThreshold (ChangeState env tabletType terTimestamp lag err serving s) = degradedThreshold s"
  "unhealthyThreshold (ChangeState env tabletType terTimestamp lag err serving s) = unhealthyThreshold s"
  "ctx (ChangeState env tabletType terTimestamp lag err serving s) = ctx s"
  "ticks (ChangeState env tabletType terTimestamp lag err serving s) = ticks s"
  "dbConfig (ChangeState env tabletType terTimestamp lag err serving s) = dbConfig s"
  "conns (ChangeState env tabletType terTimestamp lag err serving s) = conns s"
  "initSuccess (ChangeState env tabletType terTimestamp lag err serving s) = initSuccess s"
  "signalWhenSchemaChange (ChangeState env tabletType terTimestamp lag err serving s)
     = signalWhenSchemaChange s"
  by (simp_all add: ChangeState_alt Let_def broadCast_other_fields)

lemma ChangeState_history:
  "state s < length (msgs s) \<Longrightarrow>
   history (ChangeState env tabletType terTimestamp lag err serving s) =
     history_Add \<lparr>Time = Now env, hr_serving = serving, hr_tabletType = tabletType,
                  hr_lag = lag, hr_err = err\<rparr> (history s)"
  by (simp add: ChangeState_alt Let_def nth_append)

lemma ChangeState_again_msgs:
  assumes "state s < length (msgs s)"
  shows "msgs (ChangeState env tabletType terTimestamp lag err serving
           (ChangeState env tabletType terTimestamp lag err serving s)) =
         msgs (ChangeState env tabletType terTimestamp lag err serving s) @
           [msgs (ChangeState env tabletType terTimestamp lag err serving s) ! state s]"
proof -
  let ?s1 = "ChangeState env tabletType terTimestamp lag err serving s"
  have st: "msgs ?s1 ! state ?s1 =
      assign_state env tabletType terTimestamp lag err serving (msgs s ! state s)"
    using assms by (simp add: ChangeState_stored)
  have "(msgs ?s1)[state ?s1 :=
          assign_state env tabletType terTimestamp lag err serving (msgs ?s1 ! state ?s1)]
        = msgs ?s1"
    unfolding st assign_state_idem unfolding st[symmetric] by (rule list_update_id)
  then show ?thesis
    by (simp add: ChangeState_msgs[of env tabletType terTimestamp lag err serving ?s1] Let_def)
qed

lemma send_or_close_neq: "\<not> chan_closed c \<Longrightarrow> send_or_close shr c \<noteq> c"
proof
  assume a: "\<not> chan_closed c" and e: "send_or_close shr c = c"
  show False
  proof (cases "has_room c")
    case True
    with e have "buf (c\<lparr>buf := buf c @ [shr]\<rparr>) = buf c"
      by (simp add: send_or_close_def)
    then show False
      by simp
  next
    case False
    with e have "chan_closed (c\<lparr>chan_closed := True\<rparr>) = chan_closed c"
      by (simp add: send_or_close_def)
    with a show False
      by simp
  qed
qed

text \<open>
  Claim C8, as amended. Let \<open>ChangeState\<close> be called twice in succession with the same
  arguments, the collaborators returning the same values. The second call leaves the
  stored response as the first call left it, and with it every response allocated
  before, the thresholds, the contexts, the timer, the pool and the flags. It is not
  without effect: it allocates a second clone of the stored response, sends it to every
  subscriber that is still registered, closing and deleting those whose buffer is full,
  and adds a second record to the history. So every registered channel differs from
  what it was after the first call, and the streamer is never what it was after one
  call.
\<close>

theorem ChangeState_twice:
  assumes "state s < length (msgs s)" "wf_clients s"
    "s1 = ChangeState env tabletType terTimestamp lag err serving s"
    "s2 = ChangeState env tabletType terTimestamp lag err serving s1"
  shows "state s2 = state s1 \<and> msgs s2 ! state s2 = msgs s1 ! state s1 \<and>
     (\<forall>a < length (msgs s1). msgs s2 ! a = msgs s1 ! a) \<and>
     degradedThreshold s2 = degradedThreshold s1 \<and> unhealthyThreshold s2 = unhealthyThreshold s1 \<and>
     ctx s2 = ctx s1 \<and> cancel s2 = cancel s1 \<and> ctxs s2 = ctxs s1 \<and> ticks s2 = ticks s1 \<and>
     dbConfig s2 = dbConfig s1 \<and> conns s2 = conns s1 \<and> initSuccess s2 = initSuccess s1 \<and>
     signalWhenSchemaChange s2 = signalWhenSchemaChange s1 \<and>
     msgs s2 = msgs s1 @ [msgs s1 ! state s1] \<and>
     history s2 = history_Add \<lparr>Time = Now env, hr_serving = serving, hr_tabletType = tabletType,
                                hr_lag = lag, hr_err = err\<rparr> (history s1) \<and>
     clients s2 = filter (\<lambda>ch. has_room (chans s1 ! ch)) (clients s1) \<and>
     (\<forall>ch \<in> set (clients s1).
        chans s2 ! ch = send_or_close (length (msgs s1)) (chans s1 ! ch) \<and>
        chans s2 ! ch \<noteq> chans s1 ! ch) \<and>
     s2 \<noteq> s1"
proof -
  have st1: "state s1 = state s" "state s1 < length (msgs s1)"
    using assms(1) by (simp_all add: assms(3))
  have w1: "wf_clients s1"
    unfolding assms(3) using assms(2) by (rule wf_clients_ChangeState)
  then have d1: "distinct (clients s1)"
    and o1: "\<forall>ch \<in> set (clients s1). ch < length (chans s1) \<and> \<not> chan_closed (chans s1 ! ch)"
    by (simp_all add: wf_clients_def list_all_iff)
  have m: "msgs s2 = msgs s1 @ [msgs s1 ! state s1]"
    unfolding assms(4) assms(3) st1(1)[unfolded assms(3)]
    using assms(1) by (simp add: ChangeState_again_msgs)
  have a: "state s2 = state s1"
    by (simp add: assms(4))
  have b: "msgs s2 ! state s2 = msgs s1 ! state s1" "\<forall>a < length (msgs s1). msgs s2 ! a = msgs s1 ! a"
    using st1(2) by (simp_all add: m a nth_append)
  have c: "degradedThreshold s2 = degradedThreshold s1" "unhealthyThreshold s2 = unhealthyThreshold s1"
    "ctx s2 = ctx s1" "cancel s2 = cancel s1" "ctxs s2 = ctxs s1" "ticks s2 = ticks s1"
    "dbConfig s2 = dbConfig s1" "conns s2 = conns s1" "initSuccess s2 = initSuccess s1"
    "signalWhenSchemaChange s2 = signalWhenSchemaChange s1"
    by (simp_all add: assms(4) ChangeState_other_fields)
  have h: "history s2 = history_Add \<lparr>Time = Now env, hr_serving = serving, hr_tabletType = tabletType,
                                hr_lag = lag, hr_err = err\<rparr> (history s1)"
    unfolding assms(4) using st1(2) by (rule ChangeState_history)
  have cl: "clients s2 = filter (\<lambda>ch. has_room (chans s1 ! ch)) (clients s1)"
    unfolding assms(4) using d1 by (rule ChangeState_clients)
  have ch: "chans s2 ! ch = send_or_close (length (msgs s1)) (chans s1 ! ch) \<and>
        chans s2 ! ch \<noteq> chans s1 ! ch" if "ch \<in> set (clients s1)" for ch
  proof -
    have "chans s2 ! ch = send_or_close (length (msgs s1)) (chans s1 ! ch)"
      using that o1 by (simp add: assms(4) ChangeState_chans_nth[OF d1])
    moreover have "send_or_close (length (msgs s1)) (chans s1 ! ch) \<noteq> chans s1 ! ch"
      using that o1 by (intro send_or_close_neq) simp
    ultimately show ?thesis
      by simp
  qed
  have "length (msgs s2) \<noteq> length (msgs s1)"
    by (simp add: m)
  then have ne: "s2 \<noteq> s1"
    by auto
  from ch have chB: "\<forall>ch \<in> set (clients s1).
        chans s2 ! ch = send_or_close (length (msgs s1)) (chans s1 ! ch) \<and>
        chans s2 ! ch \<noteq> chans s1 ! ch"
    by blast
  show ?thesis
    by (intro conjI) fact+
qed

theorem ChangeState_twice_witness:
  "hs_one_changed = ChangeState env0 REPLICA time0 46000000000 None True
     (ChangeState env0 REPLICA time0 45000000000 None True hs_one) \<and>
   msgs hs_one_changed_twice ! state hs_one_changed_twice = msgs hs_one_changed ! state hs_one_changed \<and>
   clients hs_one_changed_twice = filter (\<lambda>ch. has_room (chans hs_one_changed ! ch)) (clients hs_one_changed) \<and>
   hs_one_changed_twice \<noteq> hs_one_changed"
proof -
  have h: "state (ChangeState env0 REPLICA time0 45000000000 None True hs_one)
      < length (msgs (ChangeState env0 REPLICA time0 45000000000 None True hs_one))"
    "wf_clients (ChangeState env0 REPLICA time0 45000000000 None True hs_one)"
    by code_simp+
  from ChangeState_twice[OF h hs_one_changed_def hs_one_changed_twice_def]
  have "msgs hs_one_changed_twice ! state hs_one_changed_twice
        = msgs hs_one_changed ! state hs_one_changed"
    "clients hs_one_changed_twice
        = filter (\<lambda>ch. has_room (chans hs_one_changed ! ch)) (clients hs_one_changed)"
    "hs_one_changed_twice \<noteq> hs_one_changed"
    by blast+
  then show ?thesis
    by (intro conjI) (rule hs_one_changed_def, assumption+)
qed

text \<open>
  Read as written, claim C8 has the streamer after two identical calls equal to the
  streamer after one. On \<open>hs_one\<close> after a first change, whose subscriber of capacity 3
  has read nothing: one call with a lag of 46 s leaves the subscriber registered, its
  buffer full; the same call again closes its channel and deletes it from the registry.
  The stored response is the same after both.
\<close>

theorem ChangeState_twice_counterexample:
  "hs_one_changed_twice = ChangeState env0 REPLICA time0 46000000000 None True hs_one_changed \<and>
   msgs hs_one_changed_twice ! state hs_one_changed_twice = msgs hs_one_changed ! state hs_one_changed \<and>
   clients hs_one_changed = [0] \<and> buf (chans hs_one_changed ! 0) = [1, 2, 3] \<and>
   \<not> chan_closed (chans hs_one_changed ! 0) \<and>
   clients hs_one_changed_twice = [] \<and> chan_closed (chans hs_one_changed_twice ! 0) \<and>
   hs_one_changed_twice \<noteq> hs_one_changed"
  by code_simp

subsection \<open>Schema changes\<close>

lemma publish_tables_chans_nth:
  "distinct (clients s) \<Longrightarrow>
   chans (publish_tables tables s) ! i =
     (if i \<in> set (clients s) \<and> i < length (chans s)
      then send_or_close (length (msgs s)) (chans s ! i) else chans s ! i)"
  by (simp add: publish_tables_alt Let_def broadCast_chans_nth)

lemma publish_tables_clients:
  "distinct (clients s) \<Longrightarrow>
   clients (publish_tables tables s) = filter (\<lambda>c. has_room (chans s ! c)) (clients s)"
  by (simp add: publish_tables_alt Let_def broadCast_clients)

lemma publish_tables_stored:
  "state s < length (msgs s) \<Longrightarrow>
   msgs (publish_tables tables s) ! state s =
     (msgs s ! state s)\<lparr>RealtimeStats := (RealtimeStats (msgs s ! state s))\<lparr>TableSchemaChanged := []\<rparr>\<rparr>"
  by (simp add: publish_tables_msgs nth_append)

lemma publish_tables_new:
  "state s < length (msgs s) \<Longrightarrow>
   msgs (publish_tables tables s) ! length (msgs s) =
     (msgs s ! state s)\<lparr>RealtimeStats := (RealtimeStats (msgs s ! state s))\<lparr>TableSchemaChanged := tables\<rparr>\<rparr>"
  by (simp add: publish_tables_msgs nth_append)

text \<open>
  The stored response carries no changed tables between the calls: every call that finds
  the field empty leaves it empty, a publishing \<open>reload\<close> included.
\<close>

lemma reload_stored_clean:
  assumes "state s < length (msgs s)"
    "TableSchemaChanged (RealtimeStats (msgs s ! state s)) = []"
    "reload my db s = Some (e, s', calls)"
  shows "TableSchemaChanged (RealtimeStats (msgs s' ! state s')) = []"
proof (cases rule: reload_cases[of my db s])
  case (published b calls)
  with assms(3) have "s' = publish_tables (detected_tables my db) (s\<lparr>initSuccess := b\<rparr>)"
    by simp
  moreover have "msgs (publish_tables (detected_tables my db) (s\<lparr>initSuccess := b\<rparr>))
        ! state (s\<lparr>initSuccess := b\<rparr>) =
      (msgs (s\<lparr>initSuccess := b\<rparr>) ! state (s\<lparr>initSuccess := b\<rparr>))
        \<lparr>RealtimeStats := (RealtimeStats (msgs (s\<lparr>initSuccess := b\<rparr>) ! state (s\<lparr>initSuccess := b\<rparr>)))
           \<lparr>TableSchemaChanged := []\<rparr>\<rparr>"
    using assms(1) by (intro publish_tables_stored) simp
  ultimately show ?thesis
    by simp
qed (use assms in auto)

lemma apply_op_stored_clean:
  assumes "state s < length (msgs s)"
    "TableSchemaChanged (RealtimeStats (msgs s ! state s)) = []"
    "apply_op x s = Some s'"
  shows "TableSchemaChanged (RealtimeStats (msgs s' ! state s')) = []"
proof (cases x)
  case (OpChangeState env tabletType terTimestamp lag err serving)
  then show ?thesis
    using assms by (auto simp: ChangeState_stored)
next
  case (OpSetUnhealthyThreshold v)
  then show ?thesis
    using assms by (auto simp: nth_append)
next
  case (OpReload my db)
  with assms(3) obtain e calls where "reload my db s = Some (e, s', calls)"
    by auto
  with assms(1,2) show ?thesis
    by (rule reload_stored_clean)
next
  case (OpRegister n)
  show ?thesis
  proof (cases rule: register_cases[of s n])
    case registered
    then show ?thesis
      using assms OpRegister by (auto simp: nth_append)
  qed (use assms OpRegister in auto)
next
  case (OpUnregister ch)
  then show ?thesis
    using assms by auto
next
  case (OpReceive ch)
  then show ?thesis
    using assms by auto
next
  case (OpInitDBConfig target cp)
  then show ?thesis
    using assms by (auto simp: InitDBConfig_def)
next
  case OpOpen
  then show ?thesis
    using assms Open_simps[of s s'] by simp
next
  case OpClose
  then show ?thesis
    using assms Close_simps[of s s'] by simp
qed

lemma run_stored_clean:
  assumes "state s < length (msgs s)"
    "TableSchemaChanged (RealtimeStats (msgs s ! state s)) = []"
    "run ops s = Some s'"
  shows "state s' < length (msgs s') \<and> keeps_msgs s s' \<and>
    TableSchemaChanged (RealtimeStats (msgs s' ! state s')) = []"
  using assms
proof (induction ops arbitrary: s)
  case Nil
  then show ?case
    by (simp add: keeps_msgs_refl)
next
  case (Cons x xs)
  from Cons.prems(3) obtain s1 where a: "apply_op x s = Some s1" and r: "run xs s1 = Some s'"
    by (auto split: option.splits)
  have k: "keeps_msgs s s1"
    using Cons.prems(1) a by (rule apply_op_keeps_msgs)
  then have l: "state s1 < length (msgs s1)"
    by (simp add: keeps_msgs_iff)
  have c: "TableSchemaChanged (RealtimeStats (msgs s1 ! state s1)) = []"
    using Cons.prems(1,2) a by (rule apply_op_stored_clean)
  from Cons.IH[OF l c r] k show ?case
    using keeps_msgs_trans by blast
qed

text \<open>
  A call that is not a publishing \<open>reload\<close> allocates only clones of the stored response,
  so on a streamer whose stored response carries no changed tables, the responses it
  allocates carry none.
\<close>

lemma apply_op_new_clean:
  assumes "state s < length (msgs s)"
    "TableSchemaChanged (RealtimeStats (msgs s ! state s)) = []"
    "apply_op x s = Some s'" "is_reload x \<longrightarrow> msgs s' = msgs s"
    "length (msgs s) \<le> a" "a < length (msgs s')"
  shows "TableSchemaChanged (RealtimeStats (msgs s' ! a)) = []"
proof (cases x)
  case (OpChangeState env tabletType terTimestamp lag err serving)
  with assms(3,5,6) have a: "a = length (msgs s)"
    by auto
  have "TableSchemaChanged (RealtimeStats (msgs s' ! state s')) = []"
    using assms(1,2,3) by (rule apply_op_stored_clean)
  then show ?thesis
    using assms(1,3) OpChangeState by (auto simp: a ChangeState_msgs_new)
next
  case (OpSetUnhealthyThreshold v)
  with assms(3,5,6) have a: "a = length (msgs s)"
    by auto
  then show ?thesis
    using assms(2,3) OpSetUnhealthyThreshold by auto
next
  case (OpReload my db)
  then show ?thesis
    using assms(4,5,6) by simp
next
  case (OpRegister n)
  show ?thesis
  proof (cases rule: register_cases[of s n])
    case registered
    with assms(3,5,6) OpRegister have a: "a = length (msgs s)"
      by auto
    then show ?thesis
      using registered assms(2,3) OpRegister by auto
  qed (use assms OpRegister in auto)
next
  case (OpUnregister ch)
  then show ?thesis
    using assms by auto
next
  case (OpReceive ch)
  then show ?thesis
    using assms by auto
next
  case (OpInitDBConfig target cp)
  then show ?thesis
    using assms by auto
next
  case OpOpen
  then show ?thesis
    using assms Open_simps[of s s'] by simp
next
  case OpClose
  then show ?thesis
    using assms Close_simps[of s s'] by simp
qed

lemma run_new_clean:
  assumes "state s < length (msgs s)"
    "TableSchemaChanged (RealtimeStats (msgs s ! state s)) = []"
    "quiet ops s" "run ops s = Some s'"
    "length (msgs s) \<le> a" "a < length (msgs s')"
  shows "TableSchemaChanged (RealtimeStats (msgs s' ! a)) = []"
  using assms
proof (induction ops arbitrary: s)
  case Nil
  then show ?case
    by simp
next
  case (Cons x xs)
  from Cons.prems(4) obtain s1 where a: "apply_op x s = Some s1" and r: "run xs s1 = Some s'"
    by (auto split: option.splits)
  from Cons.prems(3) a have q: "is_reload x \<longrightarrow> msgs s1 = msgs s" "quiet xs s1"
    by simp_all
  have k: "keeps_msgs s s1"
    using Cons.prems(1) a by (rule apply_op_keeps_msgs)
  then have l: "state s1 < length (msgs s1)" "state s1 = state s"
    by (simp_all add: keeps_msgs_iff)
  have c: "TableSchemaChanged (RealtimeStats (msgs s1 ! state s1)) = []"
    using Cons.prems(1,2) a by (rule apply_op_stored_clean)
  show ?case
  proof (cases "a < length (msgs s1)")
    case True
    have "TableSchemaChanged (RealtimeStats (msgs s1 ! a)) = []"
      using Cons.prems(1,2) a q(1) Cons.prems(5) True by (rule apply_op_new_clean)
    moreover have "keeps_msgs s1 s'"
      using run_stored_clean[OF l(1) c r] by simp
    moreover have "a \<noteq> state s1"
      using Cons.prems(1,5) l(2) by simp
    ultimately show ?thesis
      using True by (simp add: keeps_msgs_iff)
  next
    case False
    then have "length (msgs s1) \<le> a"
      by simp
    with l(1) c q(2) r show ?thesis
      using Cons.prems(6) by (rule Cons.IH)
  qed
qed

text \<open>
  Claim C3. On a primary, a cycle of \<open>reload\<close> in which every step succeeds and the
  detection query reports tables returns no error and broadcasts once: it allocates one
  response, a clone of the stored response that carries exactly the detected tables, and
  sends it to every registered subscriber (closing and deleting those whose buffer is
  full). The stored response is afterwards what it was, with the field empty. Whatever
  is called later, the stored response carries no changed tables between the calls and
  the response that was broadcast keeps the detected tables; and as long as no later
  \<open>reload\<close> publishes, every response allocated later carries no changed tables.
\<close>

theorem reload_publishes_once:
  assumes "TabletType (Target (msgs s ! state s)) = PRIMARY" "conns s = Some pool"
    "state s < length (msgs s)" "distinct (clients s)"
    "pool_Get db = None" "snd (fst (init_step my db s)) = None"
    "snd (conn_Stream db (DetectSchemaChange my)) = None"
    "detected_tables my db = tables" "tables \<noteq> []"
    "conn_Exec db ''begin'' = None" "conn_Exec db (del_statement my tables) = None"
    "conn_Exec db (upd_statement my tables) = None" "conn_Exec db ''commit'' = None"
  shows "\<exists>s' calls. reload my db s = Some (None, s', calls) \<and>
      state s' = state s \<and> length (msgs s') = Suc (length (msgs s)) \<and>
      msgs s' ! length (msgs s) =
        (msgs s ! state s)\<lparr>RealtimeStats := (RealtimeStats (msgs s ! state s))\<lparr>TableSchemaChanged := tables\<rparr>\<rparr> \<and>
      TableSchemaChanged (RealtimeStats (msgs s' ! length (msgs s))) = tables \<and>
      (\<forall>a < length (msgs s). a \<noteq> state s \<longrightarrow> msgs s' ! a = msgs s ! a) \<and>
      (\<forall>ch. chans s' ! ch =
         (if ch \<in> set (clients s) \<and> ch < length (chans s)
          then send_or_close (length (msgs s)) (chans s ! ch) else chans s ! ch)) \<and>
      clients s' = filter (\<lambda>ch. has_room (chans s ! ch)) (clients s) \<and>
      msgs s' ! state s' =
        (msgs s ! state s)\<lparr>RealtimeStats := (RealtimeStats (msgs s ! state s))\<lparr>TableSchemaChanged := []\<rparr>\<rparr> \<and>
      TableSchemaChanged (RealtimeStats (msgs s' ! state s')) = [] \<and>
      (\<forall>ops s''. run ops s' = Some s'' \<longrightarrow>
         TableSchemaChanged (RealtimeStats (msgs s'' ! state s'')) = [] \<and>
         msgs s'' ! length (msgs s) = msgs s' ! length (msgs s)) \<and>
      (\<forall>ops s'' a. quiet ops s' \<and> run ops s' = Some s'' \<and>
         length (msgs s') \<le> a \<and> a < length (msgs s'') \<longrightarrow>
         TableSchemaChanged (RealtimeStats (msgs s'' ! a)) = [])"
proof -
  define s1 where "s1 = s\<lparr>initSuccess := fst (fst (init_step my db s))\<rparr>"
  define s' where "s' = publish_tables tables s1"
  have s1: "state s1 = state s" "msgs s1 = msgs s" "chans s1 = chans s" "clients s1 = clients s"
    by (simp_all add: s1_def)
  have l1: "state s1 < length (msgs s1)" and d1: "distinct (clients s1)"
    using assms(3,4) by (simp_all add: s1)
  obtain calls where r: "reload my db s = Some (None, s', calls)"
    unfolding s'_def s1_def assms(8)[symmetric]
    using assms(1,2,5,6,7,9,10,11,12,13) by (simp add: reload_commits assms(8))
  have st: "state s' = state s" and len: "length (msgs s') = Suc (length (msgs s))"
    by (simp_all add: s'_def s1)
  have new: "msgs s' ! length (msgs s) =
        (msgs s ! state s)\<lparr>RealtimeStats := (RealtimeStats (msgs s ! state s))\<lparr>TableSchemaChanged := tables\<rparr>\<rparr>"
    unfolding s'_def using publish_tables_new[OF l1, of tables] by (simp add: s1)
  then have newt: "TableSchemaChanged (RealtimeStats (msgs s' ! length (msgs s))) = tables"
    by simp
  have k: "keeps_msgs s1 s'"
    unfolding s'_def using l1 by (rule publish_tables_keeps_msgs)
  then have old: "\<forall>a < length (msgs s). a \<noteq> state s \<longrightarrow> msgs s' ! a = msgs s ! a"
    by (simp add: keeps_msgs_iff s1)
  have ch: "\<forall>ch. chans s' ! ch =
         (if ch \<in> set (clients s) \<and> ch < length (chans s)
          then send_or_close (length (msgs s)) (chans s ! ch) else chans s ! ch)"
    unfolding s'_def using publish_tables_chans_nth[OF d1, of tables] by (simp add: s1)
  have cl: "clients s' = filter (\<lambda>ch. has_room (chans s ! ch)) (clients s)"
    unfolding s'_def using publish_tables_clients[OF d1, of tables] by (simp add: s1)
  have stored: "msgs s' ! state s' =
        (msgs s ! state s)\<lparr>RealtimeStats := (RealtimeStats (msgs s ! state s))\<lparr>TableSchemaChanged := []\<rparr>\<rparr>"
    unfolding st unfolding s'_def using publish_tables_stored[OF l1, of tables] by (simp add: s1)
  then have clean: "TableSchemaChanged (RealtimeStats (msgs s' ! state s')) = []"
    by simp
  have l': "state s' < length (msgs s')"
    using assms(3) by (simp add: st len)
  have later: "TableSchemaChanged (RealtimeStats (msgs s'' ! state s'')) = [] \<and>
         msgs s'' ! length (msgs s) = msgs s' ! length (msgs s)"
    if "run ops s' = Some s''" for ops s''
  proof -
    from run_stored_clean[OF l' clean that]
    have "keeps_msgs s' s''" "TableSchemaChanged (RealtimeStats (msgs s'' ! state s'')) = []"
      by simp_all
    moreover have "length (msgs s) < length (msgs s')" "length (msgs s) \<noteq> state s'"
      using assms(3) by (simp_all add: len st)
    ultimately show ?thesis
      by (simp add: keeps_msgs_iff)
  qed
  have laterq: "TableSchemaChanged (RealtimeStats (msgs s'' ! a)) = []"
    if "quiet ops s' \<and> run ops s' = Some s'' \<and> length (msgs s') \<le> a \<and> a < length (msgs s'')"
    for ops s'' a
    using l' clean that by (intro run_new_clean[of s' ops s'' a]) simp_all
  from later have laterA: "\<forall>ops s''. run ops s' = Some s'' \<longrightarrow>
         TableSchemaChanged (RealtimeStats (msgs s'' ! state s'')) = [] \<and>
         msgs s'' ! length (msgs s) = msgs s' ! length (msgs s)"
    by blast
  from laterq have laterB: "\<forall>ops s'' a. quiet ops s' \<and> run ops s' = Some s'' \<and>
         length (msgs s') \<le> a \<and> a < length (msgs s'') \<longrightarrow>
         TableSchemaChanged (RealtimeStats (msgs s'' ! a)) = []"
    by blast
  show ?thesis
    by (intro exI[of _ s'] exI[of _ calls] conjI) fact+
qed

theorem reload_publishes_once_witness:
  "(\<exists>calls. reload my0 db0 hs1_sub = Some (None, hs1_published, calls)) \<and>
   TableSchemaChanged (RealtimeStats (msgs hs1_published ! 2)) = [''t1'', ''t2''] \<and>
   TableSchemaChanged (RealtimeStats (msgs hs1_published ! state hs1_published)) = [] \<and>
   clients hs1_published = [0] \<and> buf (chans hs1_published ! 0) = [1, 2] \<and>
   (\<exists>s''. run [change_primary, OpReload my0 db_commit_fails] hs1_published = Some s'' \<and>
      length (msgs s'') = 4 \<and>
      TableSchemaChanged (RealtimeStats (msgs s'' ! 3)) = [] \<and>
      TableSchemaChanged (RealtimeStats (msgs s'' ! 2)) = [''t1'', ''t2''])"
proof -
  have h: "TabletType (Target (msgs hs1_sub ! state hs1_sub)) = PRIMARY"
    "conns hs1_sub = Some \<lparr>pool_size = 1, pool_open = True\<rparr>"
    "state hs1_sub < length (msgs hs1_sub)" "distinct (clients hs1_sub)"
    "pool_Get db0 = None" "snd (fst (init_step my0 db0 hs1_sub)) = None"
    "snd (conn_Stream db0 (DetectSchemaChange my0)) = None"
    "detected_tables my0 db0 = [''t1'', ''t2'']" "[''t1'', ''t2''] \<noteq> ([] :: string list)"
    "conn_Exec db0 ''begin'' = None" "conn_Exec db0 (del_statement my0 [''t1'', ''t2'']) = None"
    "conn_Exec db0 (upd_statement my0 [''t1'', ''t2'']) = None" "conn_Exec db0 ''commit'' = None"
    by code_simp+
  have e: "map_option (\<lambda>r. fst (snd r)) (reload my0 db0 hs1_sub) = Some hs1_published"
    by code_simp
  have l: "length (msgs hs1_sub) = 2"
    by code_simp
  have c: "clients hs1_published = [0]" "buf (chans hs1_published ! 0) = [1, 2]"
    by code_simp+
  have q: "quiet [change_primary, OpReload my0 db_commit_fails] hs1_published"
    by code_simp
  define s'' where "s'' = the (run [change_primary, OpReload my0 db_commit_fails] hs1_published)"
  have r2: "run [change_primary, OpReload my0 db_commit_fails] hs1_published = Some s''"
    unfolding s''_def by code_simp
  have l2: "length (msgs s'') = 4"
    unfolding s''_def by code_simp
  from reload_publishes_once[OF h] obtain s' calls where
    r: "reload my0 db0 hs1_sub = Some (None, s', calls)"
    and t: "TableSchemaChanged (RealtimeStats (msgs s' ! length (msgs hs1_sub))) = [''t1'', ''t2'']"
      "TableSchemaChanged (RealtimeStats (msgs s' ! state s')) = []"
      "length (msgs s') = Suc (length (msgs hs1_sub))"
    and later: "\<And>ops s''. run ops s' = Some s'' \<Longrightarrow>
         msgs s'' ! length (msgs hs1_sub) = msgs s' ! length (msgs hs1_sub)"
      "\<And>ops s'' a. quiet ops s' \<and> run ops s' = Some s'' \<and>
         length (msgs s') \<le> a \<and> a < length (msgs s'') \<Longrightarrow>
         TableSchemaChanged (RealtimeStats (msgs s'' ! a)) = []"
    by blast
  from r e have s': "s' = hs1_published"
    by simp
  have a: "TableSchemaChanged (RealtimeStats (msgs s'' ! 3)) = []"
    using later(2)[of "[change_primary, OpReload my0 db_commit_fails]" s'' 3] q r2 l2 t(3)
    by (simp add: s' l)
  have b: "TableSchemaChanged (RealtimeStats (msgs s'' ! 2)) = [''t1'', ''t2'']"
    using later(1)[of "[change_primary, OpReload my0 db_commit_fails]" s''] r2 t(1)
    by (simp add: s' l)
  from r t(1,2) c r2 l2 a b show ?thesis
    unfolding s' l by blast
qed

subsection \<open>Failed cycles\<close>

lemma InitSchemaLocked_loop_flag:
  "fst (fst (InitSchemaLocked_loop db queries)) \<longleftrightarrow>
   snd (fst (InitSchemaLocked_loop db queries)) = None"
  by (induction queries) (auto split: option.splits prod.splits)

lemma init_step_fails:
  "snd (fst (init_step my db s)) = Some e \<Longrightarrow>
   \<not> initSuccess s \<and> \<not> fst (fst (init_step my db s))"
  using InitSchemaLocked_loop_flag[of db "VTDatabaseInit my"]
  by (auto simp: init_step_def InitSchemaLocked_def split: if_splits)

lemma init_step_succeeds:
  "snd (fst (init_step my db s)) = None \<Longrightarrow> fst (fst (init_step my db s))"
  using InitSchemaLocked_loop_flag[of db "VTDatabaseInit my"]
  by (auto simp: init_step_def InitSchemaLocked_def split: if_splits)

lemma initSuccess_same: "initSuccess s = b \<Longrightarrow> s\<lparr>initSuccess := b\<rparr> = s"
  by auto

text \<open>
  Claim C4. On a primary with a pool, let a step of the cycle fail: \<open>hs.conns.Get\<close>,
  a statement of \<open>InitSchemaLocked\<close>, the detection query, or \<open>begin\<close>, the delete, the
  insert or \<open>commit\<close>, the steps before it having succeeded. Then \<open>reload\<close> returns
  that error, after the deferred \<open>rollback\<close> (once \<open>begin\<close> succeeded) and \<open>Recycle\<close>
  (once the connection was obtained). And whenever \<open>reload\<close> returns an error, the
  streamer is what it was, but for the flag \<open>initSuccess\<close>, which is set when the
  initialization ran and succeeded in this cycle: the stored response, every other
  response, the channels and the registry are unchanged, so nothing was broadcast; the
  closure that the timer runs logs the error and returns.
\<close>

theorem reload_failure:
  assumes "TabletType (Target (msgs s ! state s)) = PRIMARY" "conns s = Some pool"
  shows "(pool_Get db = Some e \<longrightarrow> reload my db s = Some (Some e, s, [CallGet])) \<and>
     (pool_Get db = None \<and> snd (fst (init_step my db s)) = Some e \<longrightarrow>
        reload my db s = Some (Some e, s, CallGet # snd (init_step my db s) @ [CallRecycle])) \<and>
     (pool_Get db = None \<and> snd (fst (init_step my db s)) = None \<and>
      snd (conn_Stream db (DetectSchemaChange my)) = Some e \<longrightarrow>
        reload my db s = Some (Some e, s\<lparr>initSuccess := True\<rparr>,
          CallGet # snd (init_step my db s) @ [CallStream (DetectSchemaChange my), CallRecycle])) \<and>
     (pool_Get db = None \<and> snd (fst (init_step my db s)) = None \<and>
      snd (conn_Stream db (DetectSchemaChange my)) = None \<and> detected_tables my db \<noteq> [] \<longrightarrow>
        (conn_Exec db ''begin'' = Some e \<longrightarrow>
           reload my db s = Some (Some e, s\<lparr>initSuccess := True\<rparr>,
             CallGet # snd (init_step my db s) @
             [CallStream (DetectSchemaChange my), CallExec ''begin'', CallRecycle])) \<and>
        (conn_Exec db ''begin'' = None \<and>
         conn_Exec db (del_statement my (detected_tables my db)) = Some e \<longrightarrow>
           reload my db s = Some (Some e, s\<lparr>initSuccess := True\<rparr>,
             CallGet # snd (init_step my db s) @
             [CallStream (DetectSchemaChange my), CallExec ''begin'',
              CallExec (del_statement my (detected_tables my db)),
              CallExec ''rollback'', CallRecycle])) \<and>
        (conn_Exec db ''begin'' = None \<and>
         conn_Exec db (del_statement my (detected_tables my db)) = None \<and>
         conn_Exec db (upd_statement my (detected_tables my db)) = Some e \<longrightarrow>
           reload my db s = Some (Some e, s\<lparr>initSuccess := True\<rparr>,
             CallGet # snd (init_step my db s) @
             [CallStream (DetectSchemaChange my), CallExec ''begin'',
              CallExec (del_statement my (detected_tables my db)),
              CallExec (upd_statement my (detected_tables my db)),
              CallExec ''rollback'', CallRecycle])) \<and>
        (conn_Exec db ''begin'' = None \<and>
         conn_Exec db (del_statement my (detected_tables my db)) = None \<and>
         conn_Exec db (upd_statement my (detected_tables my db)) = None \<and>
         conn_Exec db ''commit'' = Some e \<longrightarrow>
           reload my db s = Some (Some e, s\<lparr>initSuccess := True\<rparr>,
             CallGet # snd (init_step my db s) @
             [CallStream (DetectSchemaChange my), CallExec ''begin'',
              CallExec (del_statement my (detected_tables my db)),
              CallExec (upd_statement my (detected_tables my db)),
              CallExec ''commit'', CallExec ''rollback'', CallRecycle]))) \<and>
     (\<forall>e' s' calls. reload my db s = Some (Some e', s', calls) \<longrightarrow>
        (s' = s \<or> (\<not> initSuccess s \<and> s' = s\<lparr>initSuccess := True\<rparr>)) \<and>
        state s' = state s \<and> msgs s' = msgs s \<and> chans s' = chans s \<and> clients s' = clients s \<and>
        TableSchemaChanged (RealtimeStats (msgs s' ! state s'))
          = TableSchemaChanged (RealtimeStats (msgs s ! state s)) \<and>
        reload_tick my db s =
          Some (s', [''periodic schema reload failed in health stream: '' @ err_Error e']))"
proof -
  note p = assms
  have 1: "pool_Get db = Some e \<longrightarrow> reload my db s = Some (Some e, s, [CallGet])"
    using p by (simp add: reload_Get_fails)
  have 2: "pool_Get db = None \<and> snd (fst (init_step my db s)) = Some e \<longrightarrow>
        reload my db s = Some (Some e, s, CallGet # snd (init_step my db s) @ [CallRecycle])"
  proof
    assume a: "pool_Get db = None \<and> snd (fst (init_step my db s)) = Some e"
    then have "s\<lparr>initSuccess := fst (fst (init_step my db s))\<rparr> = s"
      using init_step_fails[of my db s e] by (intro initSuccess_same) simp
    with a p show "reload my db s = Some (Some e, s, CallGet # snd (init_step my db s) @ [CallRecycle])"
      using reload_init_fails[of s pool db my e] by simp
  qed
  have t: "s\<lparr>initSuccess := fst (fst (init_step my db s))\<rparr> = s\<lparr>initSuccess := True\<rparr>"
    if "snd (fst (init_step my db s)) = None"
    using init_step_succeeds[OF that] by simp
  have 3: "pool_Get db = None \<and> snd (fst (init_step my db s)) = None \<and>
      snd (conn_Stream db (DetectSchemaChange my)) = Some e \<longrightarrow>
        reload my db s = Some (Some e, s\<lparr>initSuccess := True\<rparr>,
          CallGet # snd (init_step my db s) @ [CallStream (DetectSchemaChange my), CallRecycle])"
    using p t reload_Stream_fails[of s pool db my e] by auto
  have 4: "conn_Exec db ''begin'' = Some e \<longrightarrow>
           reload my db s = Some (Some e, s\<lparr>initSuccess := True\<rparr>,
             CallGet # snd (init_step my db s) @
             [CallStream (DetectSchemaChange my), CallExec ''begin'', CallRecycle])"
    if "pool_Get db = None" "snd (fst (init_step my db s)) = None"
      "snd (conn_Stream db (DetectSchemaChange my)) = None" "detected_tables my db \<noteq> []"
    using p that t reload_begin_fails[of s pool db my e] by auto
  have 5: "conn_Exec db ''begin'' = None \<and>
         conn_Exec db (del_statement my (detected_tables my db)) = Some e \<longrightarrow>
           reload my db s = Some (Some e, s\<lparr>initSuccess := True\<rparr>,
             CallGet # snd (init_step my db s) @
             [CallStream (DetectSchemaChange my), CallExec ''begin'',
              CallExec (del_statement my (detected_tables my db)),
              CallExec ''rollback'', CallRecycle])"
    if "pool_Get db = None" "snd (fst (init_step my db s)) = None"
      "snd (conn_Stream db (DetectSchemaChange my)) = None" "detected_tables my db \<noteq> []"
    using p that t reload_del_fails[of s pool db my e] by auto
  have 6: "conn_Exec db ''begin'' = None \<and>
         conn_Exec db (del_statement my (detected_tables my db)) = None \<and>
         conn_Exec db (upd_statement my (detected_tables my db)) = Some e \<longrightarrow>
           reload my db s = Some (Some e, s\<lparr>initSuccess := True\<rparr>,
             CallGet # snd (init_step my db s) @
             [CallStream (DetectSchemaChange my), CallExec ''begin'',
              CallExec (del_statement my (detected_tables my db)),
              CallExec (upd_statement my (detected_tables my db)),
              CallExec ''rollback'', CallRecycle])"
    if "pool_Get db = None" "snd (fst (init_step my db s)) = None"
      "snd (conn_Stream db (DetectSchemaChange my)) = None" "detected_tables my db \<noteq> []"
    using p that t reload_upd_fails[of s pool db my e] by auto
  have 7: "conn_Exec db ''begin'' = None \<and>
         conn_Exec db (del_statement my (detected_tables my db)) = None \<and>
         conn_Exec db (upd_statement my (detected_tables my db)) = None \<and>
         conn_Exec db ''commit'' = Some e \<longrightarrow>
           reload my db s = Some (Some e, s\<lparr>initSuccess := True\<rparr>,
             CallGet # snd (init_step my db s) @
             [CallStream (DetectSchemaChange my), CallExec ''begin'',
              CallExec (del_statement my (detected_tables my db)),
              CallExec (upd_statement my (detected_tables my db)),
              CallExec ''commit'', CallExec ''rollback'', CallRecycle])"
    if "pool_Get db = None" "snd (fst (init_step my db s)) = None"
      "snd (conn_Stream db (DetectSchemaChange my)) = None" "detected_tables my db \<noteq> []"
    using p that t reload_commit_fails[of s pool db my e] by auto
  have 8: "(s' = s \<or> (\<not> initSuccess s \<and> s' = s\<lparr>initSuccess := True\<rparr>)) \<and>
        state s' = state s \<and> msgs s' = msgs s \<and> chans s' = chans s \<and> clients s' = clients s \<and>
        TableSchemaChanged (RealtimeStats (msgs s' ! state s'))
          = TableSchemaChanged (RealtimeStats (msgs s ! state s)) \<and>
        reload_tick my db s =
          Some (s', [''periodic schema reload failed in health stream: '' @ err_Error e'])"
    if r: "reload my db s = Some (Some e', s', calls)" for e' s' calls
  proof -
    have tick: "reload_tick my db s =
          Some (s', [''periodic schema reload failed in health stream: '' @ err_Error e'])"
      by (simp add: reload_tick_def r)
    have shape: "s' = s \<or> (\<not> initSuccess s \<and> s' = s\<lparr>initSuccess := True\<rparr>)"
    proof (cases "pool_Get db")
      case (Some g)
      with p r show ?thesis
        by (simp add: reload_Get_fails)
    next
      case g: None
      show ?thesis
      proof (cases "snd (fst (init_step my db s))")
        case (Some i)
        then have "s\<lparr>initSuccess := fst (fst (init_step my db s))\<rparr> = s"
          using init_step_fails[of my db s i] by (intro initSuccess_same) simp
        with p g Some r show ?thesis
          using reload_init_fails[of s pool db my i] by simp
      next
        case i: None
        from r obtain b where "s' = s\<lparr>initSuccess := b\<rparr>"
          by (cases rule: reload_cases[of my db s]) auto
        moreover have "s' = s\<lparr>initSuccess := fst (fst (init_step my db s))\<rparr>"
          using p g i r by (auto simp: reload_def Let_def split: option.splits if_splits)
        ultimately have "s' = s\<lparr>initSuccess := True\<rparr>"
          using t[OF i] by simp
        then show ?thesis
          by (cases "initSuccess s") (auto simp: initSuccess_same)
      qed
    qed
    then have rest: "state s' = state s \<and> msgs s' = msgs s \<and> chans s' = chans s \<and>
        clients s' = clients s"
      by auto
    from shape rest tick show ?thesis
      by simp
  qed
  from 1 2 3 4 5 6 7 8 show ?thesis
    by blast
qed

theorem reload_failure_witness:
  "reload my0 db_commit_fails hs1_sub =
     Some (Some (other_error ''lost connection''), hs1_sub\<lparr>initSuccess := True\<rparr>,
       CallGet # snd (init_step my0 db_commit_fails hs1_sub) @
       [CallStream (DetectSchemaChange my0), CallExec ''begin'',
        CallExec (del_statement my0 (detected_tables my0 db_commit_fails)),
        CallExec (upd_statement my0 (detected_tables my0 db_commit_fails)),
        CallExec ''commit'', CallExec ''rollback'', CallRecycle]) \<and>
   \<not> initSuccess hs1_sub \<and>
   msgs (hs1_sub\<lparr>initSuccess := True\<rparr>) = msgs hs1_sub \<and>
   chans (hs1_sub\<lparr>initSuccess := True\<rparr>) = chans hs1_sub \<and>
   reload_tick my0 db_commit_fails hs1_sub =
     Some (hs1_sub\<lparr>initSuccess := True\<rparr>,
           [''periodic schema reload failed in health stream: lost connection'']) \<and>
   map_option (\<lambda>r. fst (snd r)) (reload my0 db0 (hs1_sub\<lparr>initSuccess := True\<rparr>))
     = Some (hs1_published\<lparr>initSuccess := True\<rparr>)"
proof -
  have h: "TabletType (Target (msgs hs1_sub ! state hs1_sub)) = PRIMARY"
    "conns hs1_sub = Some \<lparr>pool_size = 1, pool_open = True\<rparr>"
    by code_simp+
  have c: "pool_Get db_commit_fails = None \<and> snd (fst (init_step my0 db_commit_fails hs1_sub)) = None \<and>
      snd (conn_Stream db_commit_fails (DetectSchemaChange my0)) = None \<and>
      detected_tables my0 db_commit_fails \<noteq> []"
    "conn_Exec db_commit_fails ''begin'' = None \<and>
     conn_Exec db_commit_fails (del_statement my0 (detected_tables my0 db_commit_fails)) = None \<and>
     conn_Exec db_commit_fails (upd_statement my0 (detected_tables my0 db_commit_fails)) = None \<and>
     conn_Exec db_commit_fails ''commit'' = Some (other_error ''lost connection'')"
    by code_simp+
  have n: "\<not> initSuccess hs1_sub"
    by code_simp
  have retry: "map_option (\<lambda>r. fst (snd r)) (reload my0 db0 (hs1_sub\<lparr>initSuccess := True\<rparr>))
     = Some (hs1_published\<lparr>initSuccess := True\<rparr>)"
    by code_simp
  note t = reload_failure[OF h, where db = db_commit_fails and my = my0
      and e = "other_error ''lost connection''"]
  from t c have r: "reload my0 db_commit_fails hs1_sub =
     Some (Some (other_error ''lost connection''), hs1_sub\<lparr>initSuccess := True\<rparr>,
       CallGet # snd (init_step my0 db_commit_fails hs1_sub) @
       [CallStream (DetectSchemaChange my0), CallExec ''begin'',
        CallExec (del_statement my0 (detected_tables my0 db_commit_fails)),
        CallExec (upd_statement my0 (detected_tables my0 db_commit_fails)),
        CallExec ''commit'', CallExec ''rollback'', CallRecycle])"
    by blast
  with t have "msgs (hs1_sub\<lparr>initSuccess := True\<rparr>) = msgs hs1_sub \<and>
      chans (hs1_sub\<lparr>initSuccess := True\<rparr>) = chans hs1_sub \<and>
      reload_tick my0 db_commit_fails hs1_sub =
        Some (hs1_sub\<lparr>initSuccess := True\<rparr>,
           [''periodic schema reload failed in health stream: '' @
            err_Error (other_error ''lost connection'')])"
    by blast
  with r n retry show ?thesis
    by simp
qed

end
